theory Spec2Isabelle
  imports Main "HOL-Library.Multiset"
begin

section \<open>Data model of the moderation dashboard\<close>

text \<open>
  The dashboard is a React component. Its \<^verbatim>\<open>useState\<close> cells become the fields of one
  record, every handler becomes a function from the state to the next state, and every
  answer of the remote record store or of the photo store is an argument of the function
  that awaits it.

  The type \<^verbatim>\<open>User\<close> of the source: every nullable column is an \<open>option\<close>. The
  column \<^verbatim>\<open>is_verified\<close> is a union of string literals in TypeScript and a plain
  string at run time, so it is a string here.
\<close>

record user =
  user_id :: string
  name :: "string option"
  age :: "int option"
  gender :: "string option"
  country :: "string option"
  image_urls :: "string list option"
  verification_photo_url :: "string option"
  is_verified :: "string option"
  created_at :: string

text \<open>\<^verbatim>\<open>PendingUser = User & { verification_photos: string[] }\<close>\<close>

record pending_user = user +
  verification_photos :: "string list"

datatype mode = Dashboard | UserVerification | GenderVerification

datatype sort_order = Desc | Asc

datatype gender_filter = FAll | FUnknown | FMale | FFemale

datatype update_status = Idle | Saving | Success | Error

text \<open>The parameter of \<^verbatim>\<open>handleDecision\<close>: \<^verbatim>\<open>'verified' | 'rejected'\<close>.\<close>

datatype decision = DVerified | DRejected

text \<open>The parameter of \<^verbatim>\<open>handleGenderUpdate\<close>: \<^verbatim>\<open>'Male' | 'Female'\<close>.\<close>

datatype gender_choice = Male | Female

fun genderString :: "gender_choice \<Rightarrow> string" where
  "genderString Male = ''Male''"
| "genderString Female = ''Female''"

fun filterString :: "gender_filter \<Rightarrow> string" where
  "filterString FAll = ''all''"
| "filterString FUnknown = ''unknown''"
| "filterString FMale = ''Male''"
| "filterString FFemale = ''Female''"

text \<open>
  What a select query resolves to: \<^verbatim>\<open>{ data, error, count }\<close>. The client resolves
  with an \<^verbatim>\<open>error\<close> field instead of rejecting; the source tests that field in
  \<^verbatim>\<open>fetchPendingUsers\<close>, \<^verbatim>\<open>handleGenderChange\<close> and \<^verbatim>\<open>handleGenderUpdate\<close>.
\<close>

record query_result =
  resp_data :: "user list option"
  resp_error :: "string option"
  resp_count :: "int option"

text \<open>
  The photo store: the listing of an owner's folder (file names, or null), and the
  function that turns a path into its public URL.
\<close>

record storage =
  list_files :: "string \<Rightarrow> string list option"
  getPublicUrl :: "string \<Rightarrow> string"

text \<open>The payload of the decision write: \<^verbatim>\<open>update({ is_verified }).eq('id', id)\<close>.\<close>

record update_request =
  upd_id :: string
  upd_is_verified :: string

text \<open>What \<^verbatim>\<open>fetchPendingUsers\<close> returns, with the lines it wrote to the console.\<close>

record fetched =
  users :: "pending_user list"
  total :: int
  logs :: "string list"

text \<open>
  The state cells of the component of \<^verbatim>\<open>src/unnamed/part_000\<close>, and the console as
  one more field, so that logging is visible in the model. \<open>genderUsersId\<close> is the
  identity of the array that \<^verbatim>\<open>genderUsers\<close> holds: every \<^verbatim>\<open>setGenderUsers\<close> of the
  source stores an array made on the spot (\<^verbatim>\<open>prev.map(...)\<close>, \<^verbatim>\<open>data || []\<close>), which is a
  new object even when its elements are those of the old one.
\<close>

record dashboard =
  mode :: mode
  allPendingUsers :: "pending_user list"
  queueUsers :: "pending_user list"
  totalPending :: int
  totalUnknown :: int
  hasMore :: bool
  currentUser :: "pending_user option"
  isUserVerifying :: bool
  genderUsers :: "user list"
  genderUsersId :: nat
  filteredGenderUsers :: "user list"
  sortOrder :: sort_order
  genderFilter :: gender_filter
  currentPage :: int
  adminName :: string
  genderUpdateStatus :: update_status
  console :: "string list"

definition PAGE_SIZE :: nat where
  "PAGE_SIZE = 20"

definition LOAD_MORE_THRESHOLD :: nat where
  "LOAD_MORE_THRESHOLD = 3"

text \<open>The initial values of the \<^verbatim>\<open>useState\<close> cells: the state of the first render.\<close>

definition initial :: dashboard where
  "initial = \<lparr>mode = Dashboard, allPendingUsers = [], queueUsers = [], totalPending = 0,
     totalUnknown = 0, hasMore = True, currentUser = None, isUserVerifying = False,
     genderUsers = [], genderUsersId = 0, filteredGenderUsers = [], sortOrder = Desc,
     genderFilter = FAll,
     currentPage = 1, adminName = ''Admin'', genderUpdateStatus = Idle, console = []\<rparr>"

section \<open>JavaScript helpers\<close>

text \<open>\<^verbatim>\<open>xs.slice(a, b)\<close> for indices \<open>0 \<le> a\<close>, \<open>0 \<le> b\<close>: empty when \<open>b \<le> a\<close>.\<close>

definition slice :: "nat \<Rightarrow> nat \<Rightarrow> 'a list \<Rightarrow> 'a list" where
  "slice a b xs = take (b - a) (drop a xs)"

definition endsWith :: "string \<Rightarrow> string \<Rightarrow> bool" where
  "endsWith s t = (length t \<le> length s \<and> drop (length s - length t) s = t)"

text \<open>Truthiness of a \<^verbatim>\<open>string | null\<close>: null and the empty string are falsy.\<close>

definition truthy :: "string option \<Rightarrow> bool" where
  "truthy g = (case g of None \<Rightarrow> False | Some v \<Rightarrow> v \<noteq> [])"

section \<open>The pending queue (\<^verbatim>\<open>src/unnamed/part_000\<close>)\<close>

text \<open>
  The photos of one user: the listing filtered to the three image extensions and mapped to
  public URLs; an absent listing gives no photo.
\<close>

definition photoUrls :: "storage \<Rightarrow> string \<Rightarrow> string list" where
  "photoUrls st owner =
     (case list_files st owner of
        None \<Rightarrow> []
      | Some files \<Rightarrow>
          map (\<lambda>f. getPublicUrl st (owner @ ''/'' @ f))
            (filter (\<lambda>f. endsWith f ''.jpg'' \<or> endsWith f ''.png'' \<or> endsWith f ''.jpeg'')
               files))"

text \<open>\<^verbatim>\<open>{ ...user, verification_photos: photoUrls }\<close>\<close>

definition withPhotos :: "storage \<Rightarrow> user \<Rightarrow> pending_user" where
  "withPhotos st u = user.extend u (pending_user.fields (photoUrls st (user_id u)))"

definition fetchPendingUsers :: "storage \<Rightarrow> query_result \<Rightarrow> fetched" where
  "fetchPendingUsers st res =
     (if resp_error res \<noteq> None
      then \<lparr>users = [], total = 0, logs = [''Error loading pending users:'']\<rparr>
      else \<lparr>users = map (withPhotos st) (case resp_data res of None \<Rightarrow> [] | Some d \<Rightarrow> d),
            total = (case resp_count res of None \<Rightarrow> 0 | Some c \<Rightarrow> c),
            logs = []\<rparr>)"

text \<open>
  \<^verbatim>\<open>loadNextBatch(refresh)\<close>. The function is a closure of one render of the component:
  where its body names a state variable (\<^verbatim>\<open>isUserVerifying\<close>, \<^verbatim>\<open>queueUsers.length\<close>)
  it reads the value of that render, here \<open>r\<close>. The setters act on the state at the
  time they are called, here \<open>s\<close>; \<^verbatim>\<open>setQueueUsers(prev => [...prev, ...nextBatch])\<close>
  reads \<open>prev\<close> from \<open>s\<close>.
\<close>

definition loadNextBatch ::
  "bool \<Rightarrow> storage \<Rightarrow> query_result \<Rightarrow> dashboard \<Rightarrow> dashboard \<Rightarrow> dashboard" where
  "loadNextBatch refresh st res r s =
     (let f = fetchPendingUsers st res;
          s1 = s\<lparr>console := console s @ logs f, totalPending := total f\<rparr>
      in if refresh then
           (let s2 = s1\<lparr>allPendingUsers := users f\<rparr>
            in if \<not> isUserVerifying r
               then s2\<lparr>queueUsers := slice 0 PAGE_SIZE (users f),
                       hasMore := (length (users f) > PAGE_SIZE)\<rparr>
               else s2)
         else
           (let start = length (queueUsers r);
                nextBatch = slice start (start + PAGE_SIZE) (users f)
            in s1\<lparr>allPendingUsers := users f,
                  queueUsers := queueUsers s1 @ nextBatch,
                  hasMore := (start + length nextBatch < length (users f))\<rparr>))"

text \<open>\<^verbatim>\<open>count || 0\<close> of \<^verbatim>\<open>fetchUnknownCount\<close>.\<close>

definition fetchUnknownCount :: "int option \<Rightarrow> int" where
  "fetchUnknownCount c = (case c of None \<Rightarrow> 0 | Some n \<Rightarrow> n)"

text \<open>
  The mount effect, \<^verbatim>\<open>useEffect(..., [])\<close>, runs once, after the first render. It loads
  the first batch and starts the 20 second interval. Both calls of \<^verbatim>\<open>loadNextBatch\<close>
  are calls of the first render's closure, since the effect is never created again: the
  interval's \<^verbatim>\<open>loadNextBatch(true)\<close> reads \<^verbatim>\<open>isUserVerifying\<close> of the first render
  at every tick.
\<close>

definition mount :: "storage \<Rightarrow> query_result \<Rightarrow> int option \<Rightarrow> dashboard" where
  "mount st res c = (loadNextBatch False st res initial initial)\<lparr>totalUnknown := fetchUnknownCount c\<rparr>"

definition tick :: "storage \<Rightarrow> query_result \<Rightarrow> int option \<Rightarrow> dashboard \<Rightarrow> dashboard" where
  "tick st res c s = (loadNextBatch True st res initial s)\<lparr>totalUnknown := fetchUnknownCount c\<rparr>"

text \<open>
  The low-watermark effect, with dependencies \<^verbatim>\<open>[queueUsers.length, isUserVerifying,
  hasMore]\<close>: it is created again at every render that changes one of them, so its
  \<^verbatim>\<open>loadNextBatch()\<close> is the closure of the current render.
\<close>

definition autoLoad :: "storage \<Rightarrow> query_result \<Rightarrow> dashboard \<Rightarrow> dashboard" where
  "autoLoad st res s =
     (if isUserVerifying s \<and> length (queueUsers s) \<le> LOAD_MORE_THRESHOLD \<and> hasMore s
      then loadNextBatch False st res s s
      else s)"

definition startVerification :: "dashboard \<Rightarrow> dashboard" where
  "startVerification s =
     (if length (queueUsers s) = 0 then s
      else s\<lparr>isUserVerifying := True, currentUser := Some (hd (queueUsers s))\<rparr>)"

text \<open>The write \<^verbatim>\<open>handleDecision\<close> sends for the user on display.\<close>

definition decisionUpdate :: "decision \<Rightarrow> pending_user \<Rightarrow> update_request" where
  "decisionUpdate d cu =
     \<lparr>upd_id = user_id cu,
      upd_is_verified = (if d = DVerified then ''verified'' else ''unverified'')\<rparr>"

text \<open>
  \<^verbatim>\<open>handleDecision(decision)\<close>: the write sent (none without a user on display), and the
  state after the \<^verbatim>\<open>.then(() => ...)\<close> callback. The callback takes no argument: the
  \<^verbatim>\<open>error\<close> field of the answer, here \<open>err\<close>, is not read. \<^verbatim>\<open>queueUsers\<close> and
  \<^verbatim>\<open>currentUser\<close> are those of the render \<open>r\<close> whose button was clicked.
\<close>

definition handleDecision ::
  "decision \<Rightarrow> string option \<Rightarrow> dashboard \<Rightarrow> dashboard \<Rightarrow> update_request option \<times> dashboard" where
  "handleDecision d err r s =
     (case currentUser r of
        None \<Rightarrow> (None, s)
      | Some cu \<Rightarrow>
          (let remainingQueue = filter (\<lambda>u. user_id u \<noteq> user_id cu) (queueUsers r);
               s1 = s\<lparr>queueUsers := remainingQueue,
                      totalPending := max 0 (totalPending s - 1)\<rparr>
           in (Some (decisionUpdate d cu),
               if length remainingQueue > 0
               then s1\<lparr>currentUser := Some (hd remainingQueue)\<rparr>
               else s1\<lparr>currentUser := None, isUserVerifying := False, mode := Dashboard\<rparr>)))"

text \<open>
  \<^verbatim>\<open>handleGenderChange(newGender)\<close> of the review screen, up to the status it sets (the
  timers that bring the status back to idle are left out).
\<close>

definition handleGenderChange ::
  "string \<Rightarrow> string option \<Rightarrow> dashboard \<Rightarrow> dashboard \<Rightarrow> dashboard" where
  "handleGenderChange newGender err r s =
     (case currentUser r of
        None \<Rightarrow> s
      | Some cu \<Rightarrow>
          (if err \<noteq> None
           then s\<lparr>console := console s @ [''Error updating gender:''],
                  genderUpdateStatus := Error\<rparr>
           else s\<lparr>currentUser := Some (cu\<lparr>gender := Some newGender\<rparr>),
                  queueUsers := map (\<lambda>u. if user_id u = user_id cu
                                          then u\<lparr>gender := Some newGender\<rparr> else u)
                                  (queueUsers s),
                  genderUpdateStatus := Success\<rparr>))"

section \<open>The gender review list (\<^verbatim>\<open>src/unnamed/part_000\<close>)\<close>

text \<open>
  The effect with dependencies \<^verbatim>\<open>[genderUsers, genderFilter, sortOrder]\<close>: filter, then
  sort by creation time (\<^verbatim>\<open>Array.prototype.sort\<close> is stable), then store the view and
  set the page to 1. \<open>tm\<close> stands for \<^verbatim>\<open>s => new Date(s).getTime()\<close>.
\<close>

definition matchesFilter :: "gender_filter \<Rightarrow> user \<Rightarrow> bool" where
  "matchesFilter f u =
     (if f = FUnknown then \<not> truthy (gender u) else gender u = Some (filterString f))"

definition derivedView :: "(string \<Rightarrow> int) \<Rightarrow> dashboard \<Rightarrow> dashboard" where
  "derivedView tm s =
     (let filtered0 = genderUsers s;
          filtered1 = (if genderFilter s \<noteq> FAll
                       then filter (matchesFilter (genderFilter s)) filtered0
                       else filtered0);
          filtered2 = (if sortOrder s = Asc
                       then sort_key (\<lambda>u. tm (created_at u)) filtered1
                       else sort_key (\<lambda>u. - tm (created_at u)) filtered1)
      in s\<lparr>filteredGenderUsers := filtered2, currentPage := 1\<rparr>)"

text \<open>
  The dependencies of that effect. React compares them with \<^verbatim>\<open>Object.is\<close>: the filter
  and the sort order by value, \<^verbatim>\<open>genderUsers\<close> by the identity of the array. The effect
  runs after a handler when one of them differs from what the render before had.
\<close>

definition viewDeps :: "dashboard \<Rightarrow> nat \<times> gender_filter \<times> sort_order" where
  "viewDeps s = (genderUsersId s, genderFilter s, sortOrder s)"

definition viewEffect :: "(string \<Rightarrow> int) \<Rightarrow> dashboard \<Rightarrow> dashboard \<Rightarrow> dashboard" where
  "viewEffect tm before after =
     (if viewDeps after \<noteq> viewDeps before then derivedView tm after else after)"

text \<open>\<^verbatim>\<open>Math.ceil(filteredGenderUsers.length / PAGE_SIZE)\<close>\<close>

definition totalPages :: "dashboard \<Rightarrow> int" where
  "totalPages s = int ((length (filteredGenderUsers s) + (PAGE_SIZE - 1)) div PAGE_SIZE)"

definition paginatedUsers :: "dashboard \<Rightarrow> user list" where
  "paginatedUsers s =
     slice (nat ((currentPage s - 1) * int PAGE_SIZE)) (nat (currentPage s * int PAGE_SIZE))
       (filteredGenderUsers s)"

text \<open>
  \<^verbatim>\<open>handleGenderUpdate(userId, newGender)\<close>: on an error, one line on the console; else
  \<^verbatim>\<open>setGenderUsers(prev => prev.map(...))\<close> stores a new array with the record patched,
  and \<^verbatim>\<open>totalUnknown\<close> goes down by one.
\<close>

definition handleGenderUpdate ::
  "string \<Rightarrow> gender_choice \<Rightarrow> string option \<Rightarrow> dashboard \<Rightarrow> dashboard" where
  "handleGenderUpdate userId newGender err s =
     (if err \<noteq> None
      then s\<lparr>console := console s @ [''Error updating gender:'']\<rparr>
      else s\<lparr>genderUsers := map (\<lambda>u. if user_id u = userId
                                      then u\<lparr>gender := Some (genderString newGender)\<rparr> else u)
                               (genderUsers s),
             genderUsersId := Suc (genderUsersId s),
             totalUnknown := max 0 (totalUnknown s - 1)\<rparr>)"

section \<open>Events of the component\<close>

text \<open>
  One event is one thing the operator or the timer does, with the answers of the remote
  calls it awaits; here every call resolves before the next event (the schedules of the
  next section drop that). A control that is not rendered, or is disabled, in the current
  state does nothing. After the handler, the effects whose dependencies changed run: the
  low-watermark effect after a decision and after review starts (it needs its own fetch,
  the second answer such an event carries), and the view effect, which compares its
  dependencies before and after the handler.
\<close>

datatype event =
  Tick storage query_result "int option"
| ClickVerifyUsers storage query_result
| ClickVerifyGenders "user list option"
| ClickBack
| ClickDecision decision "string option" storage query_result
| SelectGender string "string option"
| SelectFilter gender_filter
| SelectSort sort_order
| ClickGenderUpdate string gender_choice "string option"
| ClickPrevious
| ClickNext

fun step :: "(string \<Rightarrow> int) \<Rightarrow> event \<Rightarrow> dashboard \<Rightarrow> dashboard" where
  "step tm (Tick st res c) s = tick st res c s"
| "step tm (ClickVerifyUsers st res) s =
     (if mode s = Dashboard \<and> length (queueUsers s) \<noteq> 0
      then autoLoad st res (startVerification (s\<lparr>mode := UserVerification\<rparr>))
      else s)"
| "step tm (ClickVerifyGenders d) s =
     (if mode s = Dashboard
      then viewEffect tm s
             (s\<lparr>mode := GenderVerification, currentPage := 1,
                genderUsers := (case d of None \<Rightarrow> [] | Some us \<Rightarrow> us),
                genderUsersId := Suc (genderUsersId s)\<rparr>)
      else s)"
| "step tm ClickBack s =
     (if mode s = UserVerification then s\<lparr>isUserVerifying := False, mode := Dashboard\<rparr>
      else if mode s = GenderVerification then s\<lparr>mode := Dashboard\<rparr>
      else s)"
| "step tm (ClickDecision d err st res) s =
     (if mode s = UserVerification \<and> currentUser s \<noteq> None
      then autoLoad st res (snd (handleDecision d err s s))
      else s)"
| "step tm (SelectGender g err) s =
     (if mode s = UserVerification \<and> currentUser s \<noteq> None
      then handleGenderChange g err s s
      else s)"
| "step tm (SelectFilter f) s =
     (if mode s = GenderVerification then viewEffect tm s (s\<lparr>genderFilter := f\<rparr>) else s)"
| "step tm (SelectSort ord) s =
     (if mode s = GenderVerification then viewEffect tm s (s\<lparr>sortOrder := ord\<rparr>) else s)"
| "step tm (ClickGenderUpdate userId g err) s =
     (if mode s = GenderVerification \<and> userId \<in> set (map user_id (paginatedUsers s))
      then viewEffect tm s (handleGenderUpdate userId g err s)
      else s)"
| "step tm ClickPrevious s =
     (if mode s = GenderVerification \<and> totalPages s > 0 \<and> currentPage s \<noteq> 1
      then s\<lparr>currentPage := max 1 (currentPage s - 1)\<rparr>
      else s)"
| "step tm ClickNext s =
     (if mode s = GenderVerification \<and> totalPages s > 0 \<and> currentPage s \<noteq> totalPages s
      then s\<lparr>currentPage := min (totalPages s) (currentPage s + 1)\<rparr>
      else s)"

definition run :: "(string \<Rightarrow> int) \<Rightarrow> event list \<Rightarrow> dashboard \<Rightarrow> dashboard" where
  "run tm es s = foldl (\<lambda>s e. step tm e s) s es"

section \<open>Schedules\<close>

text \<open>
  \<^verbatim>\<open>loadNextBatch\<close> and \<^verbatim>\<open>handleDecision\<close> await a remote call, and the operator and the
  timer go on while it is in flight. A schedule lists what happens in the order in which
  it takes effect: a load or a write resolves, or the operator clicks. The history holds
  the state of every render so far, the first render first; an event that resolves a call
  names the render \<open>k\<close> that started it, whose closure the call reads, and acts on the
  newest state.

  A load that appends is started by the mount effect in render 0 or by the low-watermark
  effect in a render where its condition holds; the refresh is started by the interval,
  always with the closure of render 0. The events of the gender list leave the queue, the
  snapshot and the mode alone and have no part here.
\<close>

datatype sevent =
  Resolved storage query_result nat
| Ticked storage query_result "int option"
| Counted "int option"
| Verify
| OpenGenders
| Back
| Settled decision "string option" nat
| GenderSet string "string option" nat

definition now :: "dashboard list \<Rightarrow> dashboard" where
  "now h = (if h = [] then initial else last h)"

fun sstep :: "sevent \<Rightarrow> dashboard list \<Rightarrow> dashboard" where
  "sstep (Resolved st res k) h =
     (if k < length h
         \<and> (k = 0 \<or> (isUserVerifying (h ! k)
                       \<and> length (queueUsers (h ! k)) \<le> LOAD_MORE_THRESHOLD \<and> hasMore (h ! k)))
      then loadNextBatch False st res (h ! k) (now h)
      else now h)"
| "sstep (Ticked st res c) h = tick st res c (now h)"
| "sstep (Counted c) h = (now h)\<lparr>totalUnknown := fetchUnknownCount c\<rparr>"
| "sstep Verify h =
     (if mode (now h) = Dashboard \<and> length (queueUsers (now h)) \<noteq> 0
      then startVerification ((now h)\<lparr>mode := UserVerification\<rparr>)
      else now h)"
| "sstep OpenGenders h =
     (if mode (now h) = Dashboard then (now h)\<lparr>mode := GenderVerification\<rparr> else now h)"
| "sstep Back h =
     (if mode (now h) = UserVerification
      then (now h)\<lparr>isUserVerifying := False, mode := Dashboard\<rparr>
      else if mode (now h) = GenderVerification then (now h)\<lparr>mode := Dashboard\<rparr>
      else now h)"
| "sstep (Settled d err k) h =
     (if k < length h \<and> mode (h ! k) = UserVerification \<and> currentUser (h ! k) \<noteq> None
      then snd (handleDecision d err (h ! k) (now h))
      else now h)"
| "sstep (GenderSet g err k) h =
     (if k < length h \<and> mode (h ! k) = UserVerification \<and> currentUser (h ! k) \<noteq> None
      then handleGenderChange g err (h ! k) (now h)
      else now h)"

fun sched :: "sevent list \<Rightarrow> dashboard list \<Rightarrow> dashboard list" where
  "sched [] h = h"
| "sched (e # es) h = sched es (h @ [sstep e h])"

text \<open>
  What a schedule is asked for. Every fetched list has pairwise distinct identifiers. An
  append resolves while the queue still has the length its closure saw, and its fetched
  list begins with the queue, identifier by identifier. The write of a decision settles
  while the queue is still the one its click saw.
\<close>

fun sevent_ok :: "sevent \<Rightarrow> dashboard list \<Rightarrow> bool" where
  "sevent_ok (Resolved st res k) h =
     (k < length h
      \<and> distinct (map user_id (users (fetchPendingUsers st res)))
      \<and> length (queueUsers (h ! k)) = length (queueUsers (now h))
      \<and> map user_id (queueUsers (now h))
          = take (length (queueUsers (now h))) (map user_id (users (fetchPendingUsers st res))))"
| "sevent_ok (Ticked st res c) h = distinct (map user_id (users (fetchPendingUsers st res)))"
| "sevent_ok (Settled d err k) h = (k < length h \<and> queueUsers (h ! k) = queueUsers (now h))"
| "sevent_ok e h = True"

fun admissible :: "sevent list \<Rightarrow> dashboard list \<Rightarrow> bool" where
  "admissible [] h = True"
| "admissible (e # es) h = (sevent_ok e h \<and> admissible es (h @ [sstep e h]))"

text \<open>A fetch that resolves lists the identifier \<open>i\<close>; no event of a schedule does.\<close>

fun lists :: "string \<Rightarrow> sevent \<Rightarrow> bool" where
  "lists i (Resolved st res k) = (i \<in> set (map user_id (users (fetchPendingUsers st res))))"
| "lists i (Ticked st res c) = (i \<in> set (map user_id (users (fetchPendingUsers st res))))"
| "lists i e = False"

fun unlisted :: "string \<Rightarrow> sevent list \<Rightarrow> bool" where
  "unlisted i [] = True"
| "unlisted i (e # es) = (\<not> lists i e \<and> unlisted i es)"

section \<open>The earlier dashboard (\<^verbatim>\<open>src/src/app/dashboard/page.tsx\<close>)\<close>

text \<open>
  The page of \<^verbatim>\<open>src/src/app/dashboard/page.tsx\<close> keeps one list, \<^verbatim>\<open>pendingUsers\<close>, and
  no count. Its functions carry the prefix \<open>page_\<close> here, since the two files share
  their names.
\<close>

record page_state =
  pendingUsers :: "pending_user list"
  page_currentUser :: "pending_user option"
  isVerifying :: bool
  page_console :: "string list"

definition page_loadPendingUsers :: "storage \<Rightarrow> query_result \<Rightarrow> page_state \<Rightarrow> page_state" where
  "page_loadPendingUsers st res s =
     (if resp_error res \<noteq> None
      then s\<lparr>page_console := page_console s @ [''Error loading pending users:''],
             pendingUsers := []\<rparr>
      else s\<lparr>pendingUsers :=
               map (withPhotos st) (case resp_data res of None \<Rightarrow> [] | Some d \<Rightarrow> d)\<rparr>)"

definition page_startVerification :: "page_state \<Rightarrow> page_state" where
  "page_startVerification s =
     (if length (pendingUsers s) = 0 then s
      else s\<lparr>isVerifying := True, page_currentUser := Some (hd (pendingUsers s))\<rparr>)"

text \<open>The decision itself is the value written: \<^verbatim>\<open>update({ is_verified: decision })\<close>.\<close>

fun decisionString :: "decision \<Rightarrow> string" where
  "decisionString DVerified = ''verified''"
| "decisionString DRejected = ''rejected''"

definition page_handleDecision ::
  "decision \<Rightarrow> string option \<Rightarrow> page_state \<Rightarrow> page_state \<Rightarrow> update_request option \<times> page_state" where
  "page_handleDecision d err r s =
     (case page_currentUser r of
        None \<Rightarrow> (None, s)
      | Some cu \<Rightarrow>
          (let remaining = filter (\<lambda>u. user_id u \<noteq> user_id cu) (pendingUsers r);
               s1 = s\<lparr>pendingUsers := remaining\<rparr>
           in (Some \<lparr>upd_id = user_id cu, upd_is_verified = decisionString d\<rparr>,
               if length remaining > 0
               then s1\<lparr>page_currentUser := Some (hd remaining)\<rparr>
               else s1\<lparr>page_currentUser := None, isVerifying := False\<rparr>)))"

section \<open>Invariants\<close>

text \<open>
  The review stands at entry \<open>k\<close> of the list \<open>P\<close>, of which the queue has taken the
  first \<open>w\<close> entries.
\<close>

definition inReview :: "pending_user list \<Rightarrow> nat \<Rightarrow> nat \<Rightarrow> dashboard \<Rightarrow> bool" where
  "inReview P w k s =
     (mode s = UserVerification \<and> isUserVerifying s \<and> hasMore s
      \<and> queueUsers s = drop k (take w P) \<and> currentUser s = Some (P ! k))"

text \<open>
  The queue has no identifier twice, is no longer than the snapshot, and holds identifiers
  of the snapshot only.
\<close>

definition queueInv :: "dashboard \<Rightarrow> bool" where
  "queueInv s =
     (distinct (map user_id (queueUsers s))
      \<and> length (queueUsers s) \<le> length (allPendingUsers s)
      \<and> set (map user_id (queueUsers s)) \<subseteq> set (map user_id (allPendingUsers s)))"

text \<open>The page index is at least 1 and at most the number of pages, or 1 when there is none.\<close>

definition pageInv :: "dashboard \<Rightarrow> bool" where
  "pageInv s = (1 \<le> currentPage s \<and> currentPage s \<le> max 1 (totalPages s))"

section \<open>Scenarios\<close>

text \<open>Records, answers and states for the concrete cases below.\<close>

definition mkUser :: "string \<Rightarrow> string option \<Rightarrow> user" where
  "mkUser i g = \<lparr>user_id = i, name = None, age = None, gender = g, country = None,
     image_urls = None, verification_photo_url = None, is_verified = Some ''pending'',
     created_at = ''2025-01-01T00:00:00Z''\<rparr>"

definition noPhotos :: storage where
  "noPhotos = \<lparr>list_files = (\<lambda>owner. None), getPublicUrl = (\<lambda>path. path)\<rparr>"

definition answer :: "user list \<Rightarrow> query_result" where
  "answer us = \<lparr>resp_data = Some us, resp_error = None, resp_count = Some (int (length us))\<rparr>"

definition failure :: query_result where
  "failure = \<lparr>resp_data = None, resp_error = Some ''fetch failed'', resp_count = None\<rparr>"

definition noTime :: "string \<Rightarrow> int" where
  "noTime t = 0"

definition loadedAB :: dashboard where
  "loadedAB = mount noPhotos (answer [mkUser ''a'' None, mkUser ''b'' None]) None"

definition reviewingAB :: dashboard where
  "reviewingAB = step noTime (ClickVerifyUsers noPhotos failure) loadedAB"

definition page_initial :: page_state where
  "page_initial =
     \<lparr>pendingUsers = [], page_currentUser = None, isVerifying = False, page_console = []\<rparr>"

definition page_reviewingAB :: page_state where
  "page_reviewingAB = page_startVerification
     (page_loadPendingUsers noPhotos (answer [mkUser ''a'' None, mkUser ''b'' None])
        page_initial)"

definition genderListM :: dashboard where
  "genderListM = step noTime (ClickVerifyGenders (Some [mkUser ''m'' (Some ''Male'')]))
     (mount noPhotos (answer []) (Some 5))"

definition emptyGenderList :: dashboard where
  "emptyGenderList = step noTime (ClickVerifyGenders (Some [])) (mount noPhotos (answer []) None)"

text \<open>\<open>n\<close> pending users with the identifiers \<open>''''\<close>, \<open>''u''\<close>, \<open>''uu''\<close>, ...\<close>

definition pendingList :: "nat \<Rightarrow> user list" where
  "pendingList n = map (\<lambda>k. mkUser (replicate k CHR ''u'') None) [0..<n]"

definition genderListPage2 :: dashboard where
  "genderListPage2 = run noTime [ClickVerifyGenders (Some (pendingList 21)), ClickNext]
     (mount noPhotos (answer []) (Some 21))"

text \<open>
  A review of the pending list \<open>us\<close> against a server that drops every approved entry:
  after \<open>k\<close> approvals it answers with the list without its first \<open>k\<close> entries.
\<close>

definition pendingAfter :: "user list \<Rightarrow> nat \<Rightarrow> query_result" where
  "pendingAfter us k = answer (drop k us)"

definition reviewStart :: "storage \<Rightarrow> user list \<Rightarrow> dashboard" where
  "reviewStart st us =
     step noTime (ClickVerifyUsers st (pendingAfter us 0)) (mount st (pendingAfter us 0) None)"

definition approvals :: "storage \<Rightarrow> user list \<Rightarrow> nat \<Rightarrow> event list" where
  "approvals st us n =
     map (\<lambda>k. ClickDecision DVerified None st (pendingAfter us (Suc k))) [0..<n]"

text \<open>\<open>n\<close> approvals with no load in between.\<close>

fun approveOnly :: "nat \<Rightarrow> dashboard \<Rightarrow> dashboard" where
  "approveOnly 0 s = s"
| "approveOnly (Suc n) s =
     (let s' = approveOnly n s in snd (handleDecision DVerified None s' s'))"

text \<open>
  A review of the pending list \<open>us\<close> as a schedule in which nothing lands while a call is
  in flight: the first load, the start of the review, then \<open>n\<close> approvals, each clicked
  in the render the one before produced.
\<close>

definition settledReview :: "storage \<Rightarrow> user list \<Rightarrow> nat \<Rightarrow> sevent list" where
  "settledReview st us n =
     [Resolved st (pendingAfter us 0) 0, Verify]
     @ map (\<lambda>k. Settled DVerified None (k + 2)) [0..<n]"

text \<open>
  The same schedule with 17 approvals and the load that render 19 starts at the low
  watermark, cut at its first approval.
\<close>

definition reviewHead :: "storage \<Rightarrow> user list \<Rightarrow> sevent list" where
  "reviewHead st us = [Resolved st (pendingAfter us 0) 0, Verify]"

definition reviewTail :: "storage \<Rightarrow> user list \<Rightarrow> sevent list" where
  "reviewTail st us =
     map (\<lambda>k. Settled DVerified None (k + 3)) [0..<16]
     @ [Resolved st (pendingAfter us 17) 19]"

text \<open>
  A schedule in which a tick lands while the load of render 19 is in flight: 17 approvals,
  the tick, then the load. Both fetches return the users still pending.
\<close>

definition raceSchedule :: "storage \<Rightarrow> user list \<Rightarrow> sevent list" where
  "raceSchedule st us =
     settledReview st us 17
     @ [Ticked st (pendingAfter us 17) None, Resolved st (pendingAfter us 17) 19]"

text \<open>
  \<open>n\<close> approvals whose writes all fail, against a server that therefore keeps answering
  with the whole list \<open>us\<close>.
\<close>

definition failedApprovals :: "storage \<Rightarrow> user list \<Rightarrow> nat \<Rightarrow> event list" where
  "failedApprovals st us n =
     map (\<lambda>k. ClickDecision DVerified (Some ''write failed'') st (answer us)) [0..<n]"

section \<open>Basic facts\<close>

lemmas scenario_defs = mkUser_def noPhotos_def answer_def failure_def noTime_def loadedAB_def
  reviewingAB_def page_initial_def page_reviewingAB_def genderListM_def

lemmas queue_defs = mount_def tick_def loadNextBatch_def fetchPendingUsers_def
  fetchUnknownCount_def initial_def slice_def PAGE_SIZE_def startVerification_def autoLoad_def
  LOAD_MORE_THRESHOLD_def handleDecision_def decisionUpdate_def withPhotos_def photoUrls_def
  user.defs pending_user.defs Let_def

lemmas page_defs = page_handleDecision_def page_startVerification_def page_loadPendingUsers_def

lemma user_id_withPhotos [simp]: "user_id (withPhotos st u) = user_id u"
  by (simp add: withPhotos_def user.defs)

lemma ids_withPhotos [simp]: "map user_id (map (withPhotos st) us) = map user_id us"
  by simp

text \<open>The queue side of the component leaves the page index and the derived view alone.\<close>

lemma loadNextBatch_gender [simp]:
  "currentPage (loadNextBatch b st res r s) = currentPage s"
  "filteredGenderUsers (loadNextBatch b st res r s) = filteredGenderUsers s"
  by (simp_all add: loadNextBatch_def Let_def)

lemma autoLoad_gender [simp]:
  "currentPage (autoLoad st res s) = currentPage s"
  "filteredGenderUsers (autoLoad st res s) = filteredGenderUsers s"
  by (simp_all add: autoLoad_def)

lemma handleDecision_gender [simp]:
  "currentPage (snd (handleDecision d err r s)) = currentPage s"
  "filteredGenderUsers (snd (handleDecision d err r s)) = filteredGenderUsers s"
  by (simp_all add: handleDecision_def Let_def split: option.splits)

lemma startVerification_gender [simp]:
  "currentPage (startVerification s) = currentPage s"
  "filteredGenderUsers (startVerification s) = filteredGenderUsers s"
  by (simp_all add: startVerification_def)

lemma handleGenderChange_gender [simp]:
  "currentPage (handleGenderChange g err r s) = currentPage s"
  "filteredGenderUsers (handleGenderChange g err r s) = filteredGenderUsers s"
  by (simp_all add: handleGenderChange_def split: option.splits)

lemma handleGenderUpdate_gender [simp]:
  "currentPage (handleGenderUpdate i g err s) = currentPage s"
  "filteredGenderUsers (handleGenderUpdate i g err s) = filteredGenderUsers s"
  by (simp_all add: handleGenderUpdate_def)

lemma derivedView_page [simp]: "currentPage (derivedView tm s) = 1"
  by (simp add: derivedView_def Let_def)

text \<open>The pending lists of the scenarios.\<close>

lemma pendingList_ids: "map user_id (pendingList n) = map (\<lambda>k. replicate k CHR ''u'') [0..<n]"
  by (simp add: pendingList_def mkUser_def comp_def)

lemma pendingList_length [simp]: "length (pendingList n) = n"
  by (simp add: pendingList_def)

lemma pendingList_distinct: "distinct (map user_id (pendingList n))"
proof -
  have "inj_on (\<lambda>k. replicate k CHR ''u'') (set [0..<n])"
    by (rule inj_onI) (metis length_replicate)
  then show ?thesis
    by (simp add: pendingList_ids distinct_map)
qed

section \<open>The periodic refresh\<close>

text \<open>
  As a function of the render it closes over, \<^verbatim>\<open>loadNextBatch(true)\<close> follows the merge
  policy: a render in review keeps the queue, any other render replaces it by the first 20
  entries; the snapshot and the count are stored in both cases.
\<close>

lemma loadNextBatch_refresh_policy:
  "queueUsers (loadNextBatch True st res r s) =
     (if isUserVerifying r then queueUsers s else take 20 (users (fetchPendingUsers st res)))
   \<and> allPendingUsers (loadNextBatch True st res r s) = users (fetchPendingUsers st res)
   \<and> totalPending (loadNextBatch True st res r s) = total (fetchPendingUsers st res)"
  by (simp add: loadNextBatch_def Let_def slice_def PAGE_SIZE_def)

text \<open>
  The interval calls the closure of the first render, where \<^verbatim>\<open>isUserVerifying\<close> is
  false: every tick replaces the queue, whatever the state.
\<close>

lemma tick_queue: "queueUsers (tick st res c s) = take 20 (users (fetchPendingUsers st res))"
  by (simp add: tick_def loadNextBatch_def Let_def initial_def slice_def PAGE_SIZE_def)

text \<open>
  Claim C2, at an input where the code departs from it. The operator reviews the queue
  \<open>a, b\<close>; the next tick fetches the single entry \<open>c\<close>. The claim keeps the queue
  \<open>a, b\<close> during review; the tick of the source replaces it by \<open>c\<close>.
\<close>

theorem C2_tick_replaces_queue_in_review:
  "isUserVerifying reviewingAB
   \<and> map user_id (queueUsers reviewingAB) = [''a'', ''b'']
   \<and> map user_id (queueUsers (tick noPhotos (answer [mkUser ''c'' None]) None reviewingAB))
       = [''c'']"
  by (simp add: scenario_defs queue_defs)

section \<open>Failed fetches\<close>

text \<open>
  Claim C5 as stated fails: a refresh whose fetch fails empties a queue that an earlier
  fetch had filled, here the queue \<open>a, b\<close> of an operator who is not reviewing.
\<close>

theorem C5_failed_refresh_clears_queue:
  "map user_id (queueUsers loadedAB) = [''a'', ''b'']
   \<and> \<not> isUserVerifying loadedAB
   \<and> queueUsers (tick noPhotos failure None loadedAB) = []"
  by (simp add: scenario_defs queue_defs)

text \<open>
  Claim C5, amended. For every refresh whose snapshot fetch fails, the failure is logged
  and treated as an empty result: the total-pending count is set to zero, the backing
  snapshot becomes empty, and the queue is emptied too, unless the render the refresh
  closes over is in review, in which case the queue is left as it is.
\<close>

theorem C5_failed_refresh:
  "resp_error res \<noteq> None \<Longrightarrow>
     console (loadNextBatch True st res r s) = console s @ [''Error loading pending users:'']
     \<and> totalPending (loadNextBatch True st res r s) = 0
     \<and> allPendingUsers (loadNextBatch True st res r s) = []
     \<and> queueUsers (loadNextBatch True st res r s)
         = (if isUserVerifying r then queueUsers s else [])"
  by (simp add: loadNextBatch_def fetchPendingUsers_def Let_def slice_def)

theorem C5_failed_refresh_witness:
  "resp_error failure \<noteq> None
   \<and> console (loadNextBatch True noPhotos failure reviewingAB reviewingAB)
       = [''Error loading pending users:'']
   \<and> totalPending (loadNextBatch True noPhotos failure reviewingAB reviewingAB) = 0
   \<and> allPendingUsers (loadNextBatch True noPhotos failure reviewingAB reviewingAB) = []
   \<and> map user_id (queueUsers (loadNextBatch True noPhotos failure reviewingAB reviewingAB))
       = [''a'', ''b'']
   \<and> queueUsers (loadNextBatch True noPhotos failure loadedAB loadedAB) = []"
  using C5_failed_refresh [of failure noPhotos reviewingAB reviewingAB]
        C5_failed_refresh [of failure noPhotos loadedAB loadedAB]
  by (simp add: scenario_defs queue_defs)

text \<open>The earlier page empties its list in the error branch itself.\<close>

lemma page_loadPendingUsers_failed:
  "resp_error res \<noteq> None \<Longrightarrow> pendingUsers (page_loadPendingUsers st res s) = []"
  by (simp add: page_loadPendingUsers_def)

section \<open>Decisions\<close>

text \<open>The answer of the write does not reach the callback: any error gives the same result.\<close>

lemma handleDecision_ignores_error: "handleDecision d err r s = handleDecision d None r s"
  by (simp add: handleDecision_def)

lemma page_handleDecision_ignores_error:
  "page_handleDecision d err r s = page_handleDecision d None r s"
  by (simp add: page_handleDecision_def)

text \<open>
  Claim C3, at an input where the code departs from it. The operator approves \<open>a\<close> at
  the head of the queue \<open>a, b\<close> with 2 pending, and the write fails. The claim leaves the
  state as it was; the source removes \<open>a\<close>, counts 1 pending, shows \<open>b\<close>, and writes
  nothing to the console.
\<close>

theorem C3_failed_write_changes_state:
  "map user_id (queueUsers reviewingAB) = [''a'', ''b'']
   \<and> totalPending reviewingAB = 2
   \<and> map_option user_id (currentUser reviewingAB) = Some ''a''
   \<and> (let s' = snd (handleDecision DVerified (Some ''write failed'') reviewingAB reviewingAB)
      in map user_id (queueUsers s') = [''b'']
         \<and> totalPending s' = 1
         \<and> map_option user_id (currentUser s') = Some ''b''
         \<and> console s' = console reviewingAB)"
  by (simp add: scenario_defs queue_defs)

text \<open>The same input on the earlier page: \<open>a\<close> leaves the list although the write failed.\<close>

lemma page_failed_write_changes_state:
  "map user_id (pendingUsers page_reviewingAB) = [''a'', ''b'']
   \<and> map user_id (pendingUsers (snd (page_handleDecision DVerified (Some ''write failed'')
         page_reviewingAB page_reviewingAB))) = [''b'']"
  by (simp add: scenario_defs queue_defs page_defs)

text \<open>
  The two gender handlers of the same file do read the error of their write: a failed
  write changes nothing but the console and, in the review screen, the status shown.
\<close>

lemma handleGenderUpdate_failed:
  "err \<noteq> None \<Longrightarrow>
   handleGenderUpdate userId g err s = s\<lparr>console := console s @ [''Error updating gender:'']\<rparr>"
  by (simp add: handleGenderUpdate_def)

lemma handleGenderChange_failed:
  "err \<noteq> None \<Longrightarrow> currentUser r = Some cu \<Longrightarrow>
   handleGenderChange g err r s
     = s\<lparr>console := console s @ [''Error updating gender:''], genderUpdateStatus := Error\<rparr>"
  by (simp add: handleGenderChange_def)

text \<open>
  What \<^verbatim>\<open>handleDecision\<close> of \<^verbatim>\<open>src/unnamed/part_000\<close> does for the user on display:
  it writes \<open>verified\<close> or \<open>unverified\<close>, removes the identifier from the queue, takes one
  from the count but not below zero, and shows the new head of the queue, or leaves the
  review when the queue is empty.
\<close>

lemma handleDecision_effect:
  assumes "currentUser r = Some cu"
  shows "fst (handleDecision d err r s)
           = Some \<lparr>upd_id = user_id cu,
               upd_is_verified =
                 (case d of DVerified \<Rightarrow> ''verified'' | DRejected \<Rightarrow> ''unverified'')\<rparr>
    \<and> queueUsers (snd (handleDecision d err r s))
         = filter (\<lambda>u. user_id u \<noteq> user_id cu) (queueUsers r)
    \<and> user_id cu \<notin> set (map user_id (queueUsers (snd (handleDecision d err r s))))
    \<and> totalPending (snd (handleDecision d err r s)) = max 0 (totalPending s - 1)
    \<and> currentUser (snd (handleDecision d err r s))
         = (case queueUsers (snd (handleDecision d err r s)) of
              [] \<Rightarrow> None | u # us \<Rightarrow> Some u)
    \<and> (queueUsers (snd (handleDecision d err r s)) = [] \<longrightarrow>
          \<not> isUserVerifying (snd (handleDecision d err r s))
          \<and> mode (snd (handleDecision d err r s)) = Dashboard)"
  using assms
  by (cases d) (auto simp: handleDecision_def decisionUpdate_def Let_def split: list.splits)

text \<open>
  Claim C6, at an input where the code departs from it. On the page of
  \<^verbatim>\<open>src/src/app/dashboard/page.tsx\<close> the operator rejects \<open>a\<close>. The claim writes the
  status \<open>unverified\<close>; that page writes the decision itself, \<open>rejected\<close>, a value its
  own type of \<^verbatim>\<open>is_verified\<close> does not have.
\<close>

theorem C6_page_writes_rejected:
  "map_option user_id (page_currentUser page_reviewingAB) = Some ''a''
   \<and> fst (page_handleDecision DRejected None page_reviewingAB page_reviewingAB)
       = Some \<lparr>upd_id = ''a'', upd_is_verified = ''rejected''\<rparr>"
  by (simp add: scenario_defs queue_defs page_defs)

section \<open>The gender review list\<close>

text \<open>
  A successful gender update stores a new array in which every record of that identifier
  is patched, and takes one from the count of unknown genders, whatever gender the record
  had.
\<close>

lemma handleGenderUpdate_success:
  "genderUsers (handleGenderUpdate userId g None s)
     = map (\<lambda>u. if user_id u = userId then u\<lparr>gender := Some (genderString g)\<rparr> else u)
         (genderUsers s)
   \<and> genderUsersId (handleGenderUpdate userId g None s) \<noteq> genderUsersId s
   \<and> totalUnknown (handleGenderUpdate userId g None s) = max 0 (totalUnknown s - 1)"
  by (simp add: handleGenderUpdate_def)

text \<open>
  Claim C7, at an input where the code departs from it. The list holds one record, of
  gender Male, and 5 records of unknown gender are counted. The operator sets the record
  to Female. The claim leaves the count at 5, since the record had a gender; the source
  counts 4.
\<close>

theorem C7_count_drops_for_known_gender:
  "map gender (genderUsers genderListM) = [Some ''Male'']
   \<and> totalUnknown genderListM = 5
   \<and> (let s' = step noTime (ClickGenderUpdate ''m'' Female None) genderListM
      in map gender (genderUsers s') = [Some ''Female''] \<and> totalUnknown s' = 4)"
  by (simp add: scenario_defs queue_defs derivedView_def handleGenderUpdate_def
      paginatedUsers_def viewEffect_def viewDeps_def)

text \<open>
  Claim C9. The derived view holds exactly the records of the dataset that the filter
  selects, each as often as the dataset has it: under \<open>unknown\<close> those whose gender is
  unset (null, or the empty string, which \<^verbatim>\<open>!u.gender\<close> takes for unset as well), under
  \<open>Male\<close> and \<open>Female\<close> those whose gender is that string, under \<open>all\<close> every record.
\<close>

theorem C9_filter_semantics:
  "mset (filteredGenderUsers (derivedView tm (s\<lparr>genderFilter := FUnknown\<rparr>)))
     = {#u \<in># mset (genderUsers s). gender u = None \<or> gender u = Some ''''#}
   \<and> mset (filteredGenderUsers (derivedView tm (s\<lparr>genderFilter := FMale\<rparr>)))
     = {#u \<in># mset (genderUsers s). gender u = Some ''Male''#}
   \<and> mset (filteredGenderUsers (derivedView tm (s\<lparr>genderFilter := FFemale\<rparr>)))
     = {#u \<in># mset (genderUsers s). gender u = Some ''Female''#}
   \<and> mset (filteredGenderUsers (derivedView tm (s\<lparr>genderFilter := FAll\<rparr>)))
     = mset (genderUsers s)"
proof -
  have unset: "\<And>u::user. (\<not> truthy (gender u)) = (gender u = None \<or> gender u = Some '''')"
    by (simp add: truthy_def split: option.splits)
  show ?thesis
    by (simp add: derivedView_def Let_def matchesFilter_def unset)
qed

text \<open>The view effect runs exactly when a dependency differs.\<close>

lemma viewEffect_fires:
  "viewDeps after \<noteq> viewDeps before \<Longrightarrow> viewEffect tm before after = derivedView tm after"
  by (simp add: viewEffect_def)

lemma viewEffect_idle:
  "viewDeps after = viewDeps before \<Longrightarrow> viewEffect tm before after = after"
  by (simp add: viewEffect_def)

text \<open>
  Claim C10. A successful gender update in the list stores a new \<^verbatim>\<open>genderUsers\<close> array
  with the record patched; since the array is new, the view effect runs on the patched
  dataset, and the page index is 1 afterwards, whatever page was shown.
\<close>

theorem C10_gender_update_resets_page:
  assumes "mode s = GenderVerification"
    and "userId \<in> set (map user_id (paginatedUsers s))"
  shows "genderUsersId (handleGenderUpdate userId g None s) \<noteq> genderUsersId s
    \<and> step tm (ClickGenderUpdate userId g None) s
        = derivedView tm (handleGenderUpdate userId g None s)
    \<and> genderUsers (step tm (ClickGenderUpdate userId g None) s)
        = map (\<lambda>u. if user_id u = userId then u\<lparr>gender := Some (genderString g)\<rparr> else u)
            (genderUsers s)
    \<and> currentPage (step tm (ClickGenderUpdate userId g None) s) = 1"
proof -
  let ?s' = "handleGenderUpdate userId g None s"
  have new: "genderUsersId ?s' \<noteq> genderUsersId s"
    by (simp add: handleGenderUpdate_def)
  have patched: "genderUsers ?s'
      = map (\<lambda>u. if user_id u = userId then u\<lparr>gender := Some (genderString g)\<rparr> else u)
          (genderUsers s)"
    by (simp add: handleGenderUpdate_def)
  from new have "viewDeps ?s' \<noteq> viewDeps s"
    by (simp add: viewDeps_def)
  then have st: "step tm (ClickGenderUpdate userId g None) s = derivedView tm ?s'"
    using assms by (simp add: viewEffect_fires)
  have "genderUsers (derivedView tm ?s') = genderUsers ?s'"
    by (simp add: derivedView_def Let_def)
  with new st patched show ?thesis
    by simp
qed

text \<open>
  A failed update stores no array: the dependencies are those of the render before, the
  effect does not run, and the page stays.
\<close>

lemma failed_update_keeps_page:
  "err \<noteq> None \<Longrightarrow> currentPage (step tm (ClickGenderUpdate userId g err) s) = currentPage s"
  by (simp add: handleGenderUpdate_def viewEffect_def viewDeps_def)

lemma genderListPage2_shown:
  "mode genderListPage2 = GenderVerification \<and> currentPage genderListPage2 = 2
   \<and> totalPages genderListPage2 = 2
   \<and> map user_id (paginatedUsers genderListPage2) = [replicate 20 CHR ''u'']
   \<and> genderFilter genderListPage2 = FAll \<and> sortOrder genderListPage2 = Desc"
  by code_simp

theorem C10_gender_update_resets_page_witness:
  "mode genderListPage2 = GenderVerification
   \<and> replicate 20 CHR ''u'' \<in> set (map user_id (paginatedUsers genderListPage2))
   \<and> currentPage genderListPage2 = 2
   \<and> genderUsersId (handleGenderUpdate (replicate 20 CHR ''u'') Male None genderListPage2)
       \<noteq> genderUsersId genderListPage2
   \<and> currentPage (step noTime (ClickGenderUpdate (replicate 20 CHR ''u'') Male None)
        genderListPage2) = 1
   \<and> currentPage (step noTime (ClickGenderUpdate (replicate 20 CHR ''u'') Male (Some ''denied''))
        genderListPage2) = 2"
proof -
  have m: "mode genderListPage2 = GenderVerification"
    using genderListPage2_shown by simp
  have i: "replicate 20 CHR ''u'' \<in> set (map user_id (paginatedUsers genderListPage2))"
    using genderListPage2_shown by simp
  have p: "currentPage genderListPage2 = 2"
    using genderListPage2_shown by simp
  have f: "currentPage (step noTime
      (ClickGenderUpdate (replicate 20 CHR ''u'') Male (Some ''denied'')) genderListPage2) = 2"
    using failed_update_keeps_page [of "Some ''denied''" noTime "replicate 20 CHR ''u''" Male
        genderListPage2] p by simp
  from C10_gender_update_resets_page [OF m i, of Male noTime] m i p f show ?thesis
    by blast
qed

text \<open>Every event keeps the page index within its bounds.\<close>

lemma pageInv_frame:
  "currentPage s' = currentPage s \<Longrightarrow> filteredGenderUsers s' = filteredGenderUsers s \<Longrightarrow>
   pageInv s \<Longrightarrow> pageInv s'"
  by (simp add: pageInv_def totalPages_def)

lemma pageInv_one: "currentPage s = 1 \<Longrightarrow> pageInv s"
  by (simp add: pageInv_def)

lemma viewEffect_pageInv: "pageInv after \<Longrightarrow> pageInv (viewEffect tm before after)"
  by (simp add: viewEffect_def pageInv_one)

lemma step_pageInv:
  assumes "pageInv s"
  shows "pageInv (step tm e s)"
proof (cases e)
  case (Tick st res c)
  with assms show ?thesis by (auto intro!: pageInv_frame [of _ s] simp: tick_def)
next
  case (ClickVerifyUsers st res)
  with assms show ?thesis by (auto intro!: pageInv_frame [of _ s])
next
  case (ClickVerifyGenders d)
  with assms show ?thesis by (auto simp: pageInv_one intro!: viewEffect_pageInv)
next
  case ClickBack
  with assms show ?thesis by (auto intro!: pageInv_frame [of _ s])
next
  case (ClickDecision d err st res)
  with assms show ?thesis by (auto intro!: pageInv_frame [of _ s])
next
  case (SelectGender g err)
  with assms show ?thesis by (auto intro!: pageInv_frame [of _ s])
next
  case (SelectFilter f)
  with assms show ?thesis by (auto intro!: viewEffect_pageInv pageInv_frame [of _ s])
next
  case (SelectSort ord)
  with assms show ?thesis by (auto intro!: viewEffect_pageInv pageInv_frame [of _ s])
next
  case (ClickGenderUpdate i g err)
  with assms show ?thesis by (auto intro!: viewEffect_pageInv pageInv_frame [of _ s])
next
  case ClickPrevious
  with assms show ?thesis by (auto simp: pageInv_def totalPages_def)
next
  case ClickNext
  with assms show ?thesis by (auto simp: pageInv_def totalPages_def)
qed

lemma run_pageInv: "pageInv s \<Longrightarrow> pageInv (run tm es s)"
  unfolding run_def by (induction es arbitrary: s) (simp_all add: step_pageInv)

lemma mount_pageInv: "pageInv (mount st res c)"
  by (simp add: pageInv_def mount_def initial_def)

text \<open>
  Claim C8 as stated fails where the derived view is empty: the list screen with no
  record shows page 1 of 0 pages.
\<close>

theorem C8_empty_view_counterexample:
  "mode emptyGenderList = GenderVerification \<and> filteredGenderUsers emptyGenderList = []
   \<and> currentPage emptyGenderList = 1 \<and> totalPages emptyGenderList = 0
   \<and> \<not> currentPage emptyGenderList \<le> totalPages emptyGenderList"
  by code_simp

text \<open>
  Claim C8, amended. Every change of the filter or of the sort direction sets the page
  to 1. In every state the component reaches from its mount, the page index is at least 1
  and at most the number of pages of the derived view (its length over 20, rounded up),
  except that it is 1 where the derived view is empty and the number of pages is 0.
\<close>

theorem C8_page_bounds:
  "1 \<le> currentPage (run tm es (mount st res c))
   \<and> currentPage (run tm es (mount st res c)) \<le> max 1 (totalPages (run tm es (mount st res c)))
   \<and> totalPages (run tm es (mount st res c))
       = int ((length (filteredGenderUsers (run tm es (mount st res c))) + 19) div 20)
   \<and> (mode s = GenderVerification \<and> f \<noteq> genderFilter s
        \<longrightarrow> currentPage (step tm (SelectFilter f) s) = 1)
   \<and> (mode s = GenderVerification \<and> ord \<noteq> sortOrder s
        \<longrightarrow> currentPage (step tm (SelectSort ord) s) = 1)"
  using run_pageInv [OF mount_pageInv, of tm es st res c]
  by (simp add: pageInv_def totalPages_def PAGE_SIZE_def viewEffect_def viewDeps_def)

theorem C8_page_bounds_witness:
  "genderListPage2 = run noTime [ClickVerifyGenders (Some (pendingList 21)), ClickNext]
       (mount noPhotos (answer []) (Some 21))
   \<and> currentPage genderListPage2 = 2 \<and> totalPages genderListPage2 = 2
   \<and> mode genderListPage2 = GenderVerification
   \<and> FUnknown \<noteq> genderFilter genderListPage2
   \<and> currentPage (step noTime (SelectFilter FUnknown) genderListPage2) = 1
   \<and> Asc \<noteq> sortOrder genderListPage2
   \<and> currentPage (step noTime (SelectSort Asc) genderListPage2) = 1"
proof -
  have m: "mode genderListPage2 = GenderVerification"
    and p: "currentPage genderListPage2 = 2" and t: "totalPages genderListPage2 = 2"
    and f: "FUnknown \<noteq> genderFilter genderListPage2"
    and o: "Asc \<noteq> sortOrder genderListPage2"
    using genderListPage2_shown by simp_all
  from C8_page_bounds [of noTime "[ClickVerifyGenders (Some (pendingList 21)), ClickNext]"
      noPhotos "answer []" "Some 21" genderListPage2 FUnknown Asc] m p t f o
  show ?thesis
    by (simp add: genderListPage2_def)
qed

section \<open>The scenario of 45 pending users\<close>

lemma filter_drop_nth:
  assumes "distinct (map f xs)" and "k < length xs"
  shows "filter (\<lambda>u. f u \<noteq> f (xs ! k)) (drop k xs) = drop (Suc k) xs"
proof -
  have split: "drop k xs = xs ! k # drop (Suc k) xs"
    using assms(2) by (simp add: Cons_nth_drop_Suc)
  have "distinct (map f (drop k xs))"
    using assms(1) by (simp add: drop_map [symmetric] distinct_drop)
  then have "f (xs ! k) \<notin> f ` set (drop (Suc k) xs)"
    by (simp add: split)
  then have "\<forall>x \<in> set (drop (Suc k) xs). f x \<noteq> f (xs ! k)"
    by (metis imageI)
  then have "filter (\<lambda>u. f u \<noteq> f (xs ! k)) (drop (Suc k) xs) = drop (Suc k) xs"
    by (simp add: filter_id_conv)
  then show ?thesis
    by (simp add: split)
qed

lemma fetch_pendingAfter:
  "users (fetchPendingUsers st (pendingAfter us k)) = drop k (map (withPhotos st) us)"
  "total (fetchPendingUsers st (pendingAfter us k)) = int (length us - k)"
  "logs (fetchPendingUsers st (pendingAfter us k)) = []"
  by (simp_all add: fetchPendingUsers_def pendingAfter_def answer_def drop_map)

lemma mount_scenario:
  assumes "20 < length us"
  shows "queueUsers (mount st (pendingAfter us 0) c) = take 20 (map (withPhotos st) us)"
    and "allPendingUsers (mount st (pendingAfter us 0) c) = map (withPhotos st) us"
    and "hasMore (mount st (pendingAfter us 0) c)"
    and "mode (mount st (pendingAfter us 0) c) = Dashboard"
    and "\<not> isUserVerifying (mount st (pendingAfter us 0) c)"
  using assms
  by (simp_all add: mount_def loadNextBatch_def fetch_pendingAfter Let_def initial_def slice_def
      PAGE_SIZE_def)

lemma reviewStart_inReview:
  assumes "20 < length us"
  shows "inReview (map (withPhotos st) us) 20 0 (reviewStart st us)"
proof -
  let ?m = "mount st (pendingAfter us 0) None"
  let ?P = "map (withPhotos st) us"
  have len: "length (queueUsers ?m) = 20"
    using assms by (simp add: mount_scenario)
  have "take 20 ?P \<noteq> []"
    using assms by auto
  then have hd: "hd (take 20 ?P) = ?P ! 0"
    by (simp add: hd_conv_nth)
  show ?thesis
    unfolding reviewStart_def inReview_def
    using assms len hd
    by (simp add: mount_scenario startVerification_def autoLoad_def LOAD_MORE_THRESHOLD_def)
qed

lemma decide_inReview:
  assumes "inReview P w k s" and "distinct (map user_id P)" and "Suc k < w" and "w \<le> length P"
  shows "inReview P w (Suc k) (snd (handleDecision d err s s))"
proof -
  let ?Q = "take w P"
  have lenQ: "length ?Q = w" using assms(4) by simp
  have cu: "currentUser s = Some (P ! k)" and q: "queueUsers s = drop k ?Q"
    and m: "mode s = UserVerification" "isUserVerifying s" "hasMore s"
    using assms(1) by (simp_all add: inReview_def)
  have nth: "?Q ! k = P ! k" using assms(3) by simp
  have dQ: "distinct (map user_id ?Q)"
    using assms(2) by (simp add: take_map [symmetric] distinct_take)
  have "filter (\<lambda>u. user_id u \<noteq> user_id (?Q ! k)) (drop k ?Q) = drop (Suc k) ?Q"
    using dQ assms(3) lenQ by (intro filter_drop_nth) simp_all
  then have rem: "filter (\<lambda>u. user_id u \<noteq> user_id (P ! k)) (queueUsers s) = drop (Suc k) ?Q"
    by (simp add: nth q)
  have ne: "length (drop (Suc k) ?Q) > 0" using assms(3) lenQ by simp
  have hd: "hd (drop (Suc k) ?Q) = P ! Suc k"
    using assms(3) lenQ by (simp add: hd_drop_conv_nth)
  show ?thesis
    using ne hd m
    by (simp add: inReview_def handleDecision_def cu rem Let_def del: length_drop)
qed

lemma autoLoad_idle:
  assumes "inReview P w k s" and "w \<le> length P" and "3 < w - k"
  shows "autoLoad st res s = s"
  using assms by (simp add: autoLoad_def inReview_def LOAD_MORE_THRESHOLD_def)

lemma step_inReview:
  assumes "inReview P w k s" and "distinct (map user_id P)" and "w \<le> length P" and "4 < w - k"
  shows "inReview P w (Suc k) (step tm (ClickDecision d err st res) s)"
proof -
  have d: "inReview P w (Suc k) (snd (handleDecision d err s s))"
    using assms by (intro decide_inReview) simp_all
  have "autoLoad st res (snd (handleDecision d err s s)) = snd (handleDecision d err s s)"
    using d assms by (intro autoLoad_idle [of P w "Suc k"]) simp_all
  with d assms(1) show ?thesis
    by (simp add: inReview_def)
qed

lemma run_snoc: "run tm (es @ [e]) s = step tm e (run tm es s)"
  by (simp add: run_def)

lemma approvals_Suc:
  "approvals st us (Suc n)
     = approvals st us n @ [ClickDecision DVerified None st (pendingAfter us (Suc n))]"
  by (simp add: approvals_def)

lemma run_approvals_Suc:
  "run tm (approvals st us (Suc n)) s
     = step tm (ClickDecision DVerified None st (pendingAfter us (Suc n)))
         (run tm (approvals st us n) s)"
  by (simp only: approvals_Suc run_snoc)

lemma approvals_inReview:
  assumes "length us = 45" and "distinct (map user_id us)" and "k \<le> 16"
  shows "inReview (map (withPhotos st) us) 20 k (run tm (approvals st us k) (reviewStart st us))"
  using assms(3)
proof (induction k)
  case 0
  show ?case using assms(1) by (simp add: approvals_def run_def reviewStart_inReview)
next
  case (Suc k)
  then have "inReview (map (withPhotos st) us) 20 k (run tm (approvals st us k) (reviewStart st us))"
    by simp
  then show ?case
    unfolding run_approvals_Suc
    using assms(1,2) Suc.prems by (intro step_inReview) (simp_all add: comp_def)
qed

lemma append_at_watermark:
  assumes "inReview (map (withPhotos st) us) 20 17 s" and "length us = 45"
  shows "inReview (map (withPhotos st) us) 40 17 (autoLoad st (pendingAfter us 17) s)"
    and "allPendingUsers (autoLoad st (pendingAfter us 17) s) = drop 17 (map (withPhotos st) us)"
proof -
  let ?P = "map (withPhotos st) us"
  have q: "queueUsers s = drop 17 (take 20 ?P)" and v: "isUserVerifying s" "hasMore s"
    using assms(1) by (simp_all add: inReview_def)
  have len: "length (queueUsers s) = 3" using assms(2) by (simp add: q)
  have fire: "autoLoad st (pendingAfter us 17) s = loadNextBatch False st (pendingAfter us 17) s s"
    using v len by (simp add: autoLoad_def LOAD_MORE_THRESHOLD_def)
  have "take 40 ?P = take 20 ?P @ take 20 (drop 20 ?P)"
    using take_add [of 20 20 ?P] by simp
  then have win: "drop 17 (take 40 ?P) = drop 17 (take 20 ?P) @ take 20 (drop 20 ?P)"
    using assms(2) by simp
  have batch: "slice 3 23 (drop 17 ?P) = take 20 (drop 20 ?P)"
    by (simp add: slice_def)
  show "inReview ?P 40 17 (autoLoad st (pendingAfter us 17) s)"
    using assms
    by (simp add: fire inReview_def loadNextBatch_def fetch_pendingAfter Let_def len
        PAGE_SIZE_def batch win del: drop_take)
  show "allPendingUsers (autoLoad st (pendingAfter us 17) s) = drop 17 ?P"
    by (simp add: fire loadNextBatch_def fetch_pendingAfter Let_def)
qed

text \<open>
  Claim C4 as stated fails, with 45 pending users: after 18 approvals the queue holds 22
  entries, not 2, since the load fired at the low watermark, after the 17th; and were no
  load to come before the 18th approval, the append at a queue of 2 would give 22 entries,
  not 20.
\<close>

theorem C4_queue_not_twenty_counterexample:
  "length (queueUsers (run noTime (approvals noPhotos (pendingList 45) 18)
       (reviewStart noPhotos (pendingList 45)))) = 22
   \<and> length (queueUsers (approveOnly 18 (reviewStart noPhotos (pendingList 45)))) = 2
   \<and> length (queueUsers (loadNextBatch False noPhotos (pendingAfter (pendingList 45) 18)
       (approveOnly 18 (reviewStart noPhotos (pendingList 45)))
       (approveOnly 18 (reviewStart noPhotos (pendingList 45))))) = 22"
  by code_simp

text \<open>
  Claim C4, amended. The snapshot holds 45 pending entries with distinct identifiers, and
  the server drops every approved entry. The first load yields a queue of exactly 20, with
  more to come. After the reviewer approves 17 of them the queue length is 3, the low
  watermark, which triggers the append: of the 28 entries still pending 25 are not in the
  queue, the load appends 20 of them, the queue has 23 entries, and \<^verbatim>\<open>hasMore\<close> remains
  true with 5 entries left for a later load. After the 18th approval the queue has 22
  entries.
\<close>

theorem C4_scenario:
  assumes "length us = 45" and "distinct (map user_id us)"
  shows "length (queueUsers (mount st (pendingAfter us 0) c)) = 20
    \<and> hasMore (mount st (pendingAfter us 0) c)
    \<and> (let s16 = run tm (approvals st us 16) (reviewStart st us);
            d17 = snd (handleDecision DVerified None s16 s16);
            s17 = run tm (approvals st us 17) (reviewStart st us);
            s18 = run tm (approvals st us 18) (reviewStart st us)
        in length (queueUsers d17) = 3
           \<and> s17 = autoLoad st (pendingAfter us 17) d17
           \<and> length (users (fetchPendingUsers st (pendingAfter us 17))) - length (queueUsers d17) = 25
           \<and> length (queueUsers s17) = 23
           \<and> hasMore s17
           \<and> length (allPendingUsers s17) - length (queueUsers s17) = 5
           \<and> length (queueUsers s18) = 22)"
proof -
  let ?P = "map (withPhotos st) us"
  let ?s16 = "run tm (approvals st us 16) (reviewStart st us)"
  let ?d17 = "snd (handleDecision DVerified None ?s16 ?s16)"
  let ?s17 = "run tm (approvals st us 17) (reviewStart st us)"
  let ?s18 = "run tm (approvals st us 18) (reviewStart st us)"
  have dP: "distinct (map user_id ?P)" using assms(2) by (simp add: comp_def)
  have lP: "length ?P = 45" using assms(1) by simp
  have m: "length (queueUsers (mount st (pendingAfter us 0) c)) = 20"
    "hasMore (mount st (pendingAfter us 0) c)"
    using assms(1) by (simp_all add: mount_scenario)
  have i16: "inReview ?P 20 16 ?s16"
    using assms by (intro approvals_inReview) simp_all
  have i17: "inReview ?P 20 17 ?d17"
    using decide_inReview [OF i16 dP, of DVerified None] lP by simp
  have s17: "?s17 = autoLoad st (pendingAfter us 17) ?d17"
  proof -
    have "mode ?s16 = UserVerification" "currentUser ?s16 \<noteq> None"
      using i16 by (simp_all add: inReview_def)
    then show ?thesis
      using run_approvals_Suc [of tm st us 16 "reviewStart st us"] by simp
  qed
  have a17: "inReview ?P 40 17 ?s17" and all17: "allPendingUsers ?s17 = drop 17 ?P"
    unfolding s17 using append_at_watermark [OF i17 assms(1)] by simp_all
  have i18: "inReview ?P 40 18 ?s18"
    using run_approvals_Suc [of tm st us 17 "reviewStart st us"]
      step_inReview [OF a17 dP, of tm DVerified None st "pendingAfter us 18"] lP
    by simp
  have q17: "length (queueUsers ?d17) = 3"
    using i17 lP by (simp add: inReview_def)
  have f17: "length (users (fetchPendingUsers st (pendingAfter us 17))) = 28"
    using lP by (simp add: fetch_pendingAfter)
  have l17: "length (queueUsers ?s17) = 23" and h17: "hasMore ?s17"
    using a17 lP by (simp_all add: inReview_def)
  have l18: "length (queueUsers ?s18) = 22"
    using i18 lP by (simp add: inReview_def)
  show ?thesis
    using m q17 s17 f17 l17 h17 all17 l18 lP by (simp add: Let_def)
qed

theorem C4_scenario_witness:
  "length (pendingList 45) = 45
   \<and> distinct (map user_id (pendingList 45))
   \<and> length (queueUsers (mount noPhotos (pendingAfter (pendingList 45) 0) None)) = 20
   \<and> hasMore (mount noPhotos (pendingAfter (pendingList 45) 0) None)
   \<and> length (queueUsers (run noTime (approvals noPhotos (pendingList 45) 17)
        (reviewStart noPhotos (pendingList 45)))) = 23
   \<and> hasMore (run noTime (approvals noPhotos (pendingList 45) 17)
        (reviewStart noPhotos (pendingList 45)))
   \<and> length (queueUsers (run noTime (approvals noPhotos (pendingList 45) 18)
        (reviewStart noPhotos (pendingList 45)))) = 22"
proof -
  have l: "length (pendingList 45) = 45"
    by simp
  have d: "distinct (map user_id (pendingList 45))"
    by (rule pendingList_distinct)
  note c = C4_scenario [OF l d, of noPhotos None noTime, unfolded Let_def]
  from c l d show ?thesis
    by blast
qed

section \<open>The queue under schedules\<close>

text \<open>The history grows by one state with every event.\<close>

lemma now_snoc [simp]: "now (h @ [s]) = s"
  by (simp add: now_def)

lemma sched_append: "sched (es1 @ es2) h = sched es2 (sched es1 h)"
  by (induction es1 arbitrary: h) simp_all

lemma admissible_append:
  "admissible (es1 @ es2) h = (admissible es1 h \<and> admissible es2 (sched es1 h))"
  by (induction es1 arbitrary: h) simp_all

lemma queueInv_frame:
  "queueUsers s' = queueUsers s \<Longrightarrow> allPendingUsers s' = allPendingUsers s \<Longrightarrow>
   queueInv s \<Longrightarrow> queueInv s'"
  by (simp add: queueInv_def)

lemma refresh_queueInv:
  assumes "distinct (map user_id (users (fetchPendingUsers st res)))"
  shows "queueInv (loadNextBatch True st res initial s)"
  using assms
  by (auto simp: queueInv_def loadNextBatch_def Let_def initial_def slice_def PAGE_SIZE_def
      take_map [symmetric] distinct_take dest: in_set_takeD)

lemma append_ids:
  assumes "length (queueUsers r) = length (queueUsers s)"
    and "map user_id (queueUsers s)
           = take (length (queueUsers s)) (map user_id (users (fetchPendingUsers st res)))"
  shows "map user_id (queueUsers (loadNextBatch False st res r s))
           = take (length (queueUsers s) + 20) (map user_id (users (fetchPendingUsers st res)))"
    and "allPendingUsers (loadNextBatch False st res r s) = users (fetchPendingUsers st res)"
  using assms
  by (simp_all add: loadNextBatch_def Let_def slice_def PAGE_SIZE_def take_add take_map
      drop_map)

lemma append_queueInv:
  assumes "distinct (map user_id (users (fetchPendingUsers st res)))"
    and "length (queueUsers r) = length (queueUsers s)"
    and "map user_id (queueUsers s)
           = take (length (queueUsers s)) (map user_id (users (fetchPendingUsers st res)))"
  shows "queueInv (loadNextBatch False st res r s)"
proof -
  let ?s' = "loadNextBatch False st res r s"
  let ?ids = "map user_id (users (fetchPendingUsers st res))"
  have q: "map user_id (queueUsers ?s') = take (length (queueUsers s) + 20) ?ids"
    and a: "allPendingUsers ?s' = users (fetchPendingUsers st res)"
    using append_ids [OF assms(2,3)] by simp_all
  have "length (map user_id (queueUsers ?s')) \<le> length ?ids"
    unfolding q by simp
  then have l: "length (queueUsers ?s') \<le> length (allPendingUsers ?s')"
    by (simp add: a)
  have "distinct (map user_id (queueUsers ?s'))"
    unfolding q using assms(1) by (rule distinct_take)
  moreover have "set (map user_id (queueUsers ?s')) \<subseteq> set (map user_id (allPendingUsers ?s'))"
    unfolding q a by (rule set_take_subset)
  ultimately show ?thesis using l by (simp add: queueInv_def)
qed

lemma startVerification_queue [simp]:
  "queueUsers (startVerification s) = queueUsers s"
  "allPendingUsers (startVerification s) = allPendingUsers s"
  by (simp_all add: startVerification_def)

lemma handleDecision_queue:
  "currentUser r = Some cu \<Longrightarrow>
   queueUsers (snd (handleDecision d err r s))
     = filter (\<lambda>u. user_id u \<noteq> user_id cu) (queueUsers r)"
  "allPendingUsers (snd (handleDecision d err r s)) = allPendingUsers s"
  by (simp_all add: handleDecision_def Let_def split: option.splits)

lemma handleDecision_queueInv:
  assumes "queueInv s" and "queueUsers r = queueUsers s" and "currentUser r \<noteq> None"
  shows "queueInv (snd (handleDecision d err r s))"
proof -
  from assms(3) obtain cu where cu: "currentUser r = Some cu" by auto
  from assms(1) show ?thesis
    unfolding queueInv_def handleDecision_queue(1) [OF cu] handleDecision_queue(2) assms(2)
    by (auto simp: distinct_map_filter intro: le_trans [OF length_filter_le])
qed

lemma handleGenderChange_queue:
  "map user_id (queueUsers (handleGenderChange g err r s)) = map user_id (queueUsers s)"
  "allPendingUsers (handleGenderChange g err r s) = allPendingUsers s"
  by (simp_all add: handleGenderChange_def comp_def split: option.splits)

lemma handleGenderChange_queueInv:
  assumes "queueInv s"
  shows "queueInv (handleGenderChange g err r s)"
proof -
  have "length (map user_id (queueUsers (handleGenderChange g err r s)))
          = length (map user_id (queueUsers s))"
    by (simp only: handleGenderChange_queue)
  then have "length (queueUsers (handleGenderChange g err r s)) = length (queueUsers s)"
    by simp
  with assms show ?thesis
    by (simp add: queueInv_def handleGenderChange_queue)
qed

lemma sstep_queueInv:
  assumes "queueInv (now h)" and "sevent_ok e h"
  shows "queueInv (sstep e h)"
proof (cases e)
  case (Resolved st res k)
  with assms show ?thesis by (simp add: append_queueInv)
next
  case (Ticked st res c)
  with assms have "queueInv (loadNextBatch True st res initial (now h))"
    by (simp add: refresh_queueInv)
  then show ?thesis
    by (simp add: Ticked tick_def queueInv_def)
next
  case (Counted c)
  with assms show ?thesis by (simp add: queueInv_def)
next
  case Verify
  with assms show ?thesis by (simp add: queueInv_def)
next
  case OpenGenders
  with assms show ?thesis by (simp add: queueInv_def)
next
  case Back
  with assms show ?thesis by (simp add: queueInv_def)
next
  case (Settled d err k)
  with assms show ?thesis by (simp add: handleDecision_queueInv)
next
  case (GenderSet g err k)
  with assms show ?thesis by (simp add: handleGenderChange_queueInv)
qed

lemma sched_queueInv:
  "queueInv (now h) \<Longrightarrow> admissible es h \<Longrightarrow> queueInv (now (sched es h))"
  by (induction es arbitrary: h) (simp_all add: sstep_queueInv)

lemma initial_queueInv: "queueInv (now [initial])"
  by (simp add: now_def queueInv_def initial_def)

text \<open>An identifier outside the queue stays outside while no fetch lists it.\<close>

lemma loadNextBatch_unlisted:
  assumes "i \<notin> set (map user_id (queueUsers s))"
    and "i \<notin> set (map user_id (users (fetchPendingUsers st res)))"
  shows "i \<notin> set (map user_id (queueUsers (loadNextBatch refresh st res r s)))"
  using assms
  by (auto simp: loadNextBatch_def Let_def slice_def dest!: in_set_takeD in_set_dropD)

lemma sstep_unlisted:
  assumes "i \<notin> set (map user_id (queueUsers (now h)))" and "sevent_ok e h" and "\<not> lists i e"
  shows "i \<notin> set (map user_id (queueUsers (sstep e h)))"
proof (cases e)
  case (Resolved st res k)
  have "i \<notin> set (map user_id (users (fetchPendingUsers st res)))"
    using assms(3) Resolved by simp
  from loadNextBatch_unlisted [OF assms(1) this, of False "h ! k"] assms(1)
  show ?thesis
    by (simp add: Resolved del: set_map)
next
  case (Ticked st res c)
  have "i \<notin> set (map user_id (users (fetchPendingUsers st res)))"
    using assms(3) Ticked by simp
  from loadNextBatch_unlisted [OF assms(1) this, of True initial]
  show ?thesis
    by (simp add: Ticked tick_def del: set_map)
next
  case (Counted c)
  with assms show ?thesis by simp
next
  case Verify
  with assms show ?thesis by simp
next
  case OpenGenders
  with assms show ?thesis by simp
next
  case Back
  with assms show ?thesis by simp
next
  case (Settled d err k)
  show ?thesis
  proof (cases "k < length h \<and> mode (h ! k) = UserVerification \<and> currentUser (h ! k) \<noteq> None")
    case True
    then obtain cu where cu: "currentUser (h ! k) = Some cu" by auto
    have q: "queueUsers (h ! k) = queueUsers (now h)"
      using assms(2) Settled by simp
    show ?thesis
      using assms(1) True by (auto simp: Settled handleDecision_queue(1) [OF cu] q)
  next
    case False
    with assms(1) show ?thesis by (auto simp: Settled)
  qed
next
  case (GenderSet g err k)
  with assms(1) show ?thesis
    by (simp add: handleGenderChange_queue del: set_map)
qed

lemma sched_unlisted:
  "i \<notin> set (map user_id (queueUsers (now h))) \<Longrightarrow> admissible es h \<Longrightarrow> unlisted i es \<Longrightarrow>
   i \<notin> set (map user_id (queueUsers (now (sched es h))))"
proof (induction es arbitrary: h)
  case Nil
  then show ?case by simp
next
  case (Cons e es)
  have "i \<notin> set (map user_id (queueUsers (now (h @ [sstep e h]))))"
    using Cons.prems sstep_unlisted [of i h e] by simp
  then show ?case
    using Cons.prems Cons.IH [of "h @ [sstep e h]"] by simp
qed

lemma settled_removes:
  assumes "k < length h" and "mode (h ! k) = UserVerification" and "currentUser (h ! k) = Some cu"
  shows "user_id cu \<notin> set (map user_id (queueUsers (sstep (Settled d err k) h)))"
  using assms by (auto simp: handleDecision_queue(1))

text \<open>
  The review as a schedule: while nothing lands during a call, its states are those of the
  scenario above, and the schedule is admissible.
\<close>

lemma nth_last_history: "h \<noteq> [] \<Longrightarrow> h ! (length h - 1) = now h"
  by (simp add: now_def last_conv_nth)

lemma settledReview_Suc:
  "settledReview st us (Suc n) = settledReview st us n @ [Settled DVerified None (n + 2)]"
  by (simp add: settledReview_def)

lemma sched_snoc: "sched (es @ [e]) h = sched es h @ [sstep e (sched es h)]"
  by (simp add: sched_append)

lemma admissible_snoc:
  "admissible (es @ [e]) h = (admissible es h \<and> sevent_ok e (sched es h))"
  by (simp add: admissible_append)

lemma first_load:
  assumes "20 < length us"
  shows "queueUsers (loadNextBatch False st (pendingAfter us 0) initial initial)
           = take 20 (map (withPhotos st) us)"
    and "allPendingUsers (loadNextBatch False st (pendingAfter us 0) initial initial)
           = map (withPhotos st) us"
    and "hasMore (loadNextBatch False st (pendingAfter us 0) initial initial)"
    and "mode (loadNextBatch False st (pendingAfter us 0) initial initial) = Dashboard"
  using assms
  by (simp_all add: loadNextBatch_def fetch_pendingAfter Let_def initial_def slice_def
      PAGE_SIZE_def)

lemma settledReview_start:
  assumes "20 < length us" and "distinct (map user_id us)"
  shows "length (sched (settledReview st us 0) [initial]) = 3"
    and "inReview (map (withPhotos st) us) 20 0 (now (sched (settledReview st us 0) [initial]))"
    and "admissible (settledReview st us 0) [initial]"
proof -
  let ?P = "map (withPhotos st) us"
  let ?m = "loadNextBatch False st (pendingAfter us 0) initial initial"
  have "take 20 ?P \<noteq> []"
    using assms(1) by auto
  then have hd: "hd (take 20 ?P) = ?P ! 0"
    by (simp add: hd_conv_nth)
  have len: "length (queueUsers ?m) = 20"
    using assms(1) by (simp add: first_load)
  show "length (sched (settledReview st us 0) [initial]) = 3"
    by (simp add: settledReview_def)
  show "inReview ?P 20 0 (now (sched (settledReview st us 0) [initial]))"
    using assms(1) len hd
    by (simp add: settledReview_def inReview_def now_def first_load startVerification_def)
  show "admissible (settledReview st us 0) [initial]"
    using assms(2)
    by (simp add: settledReview_def now_def fetch_pendingAfter initial_def comp_def)
qed

lemma settledReview_inReview:
  assumes "20 < length us" and "distinct (map user_id us)" and "n \<le> 17"
  shows "length (sched (settledReview st us n) [initial]) = n + 3
    \<and> inReview (map (withPhotos st) us) 20 n (now (sched (settledReview st us n) [initial]))
    \<and> admissible (settledReview st us n) [initial]"
  using assms(3)
proof (induction n)
  case 0
  show ?case using settledReview_start [OF assms(1,2), of st] by simp
next
  case (Suc n)
  let ?P = "map (withPhotos st) us"
  let ?h = "sched (settledReview st us n) [initial]"
  have len: "length ?h = n + 3" and inr: "inReview ?P 20 n (now ?h)"
    and adm: "admissible (settledReview st us n) [initial]"
    using Suc by simp_all
  have ne: "?h \<noteq> []" using len by auto
  have cur: "?h ! (n + 2) = now ?h"
    using nth_last_history [OF ne] len by simp
  have dP: "distinct (map user_id ?P)" using assms(2) by (simp add: comp_def)
  have guard: "mode (now ?h) = UserVerification" "currentUser (now ?h) \<noteq> None"
    using inr by (simp_all add: inReview_def)
  have st: "sstep (Settled DVerified None (n + 2)) ?h
      = snd (handleDecision DVerified None (now ?h) (now ?h))"
    using len cur guard by simp
  have "inReview ?P 20 (Suc n) (snd (handleDecision DVerified None (now ?h) (now ?h)))"
    using inr dP assms(1) Suc.prems by (intro decide_inReview) simp_all
  moreover have "sevent_ok (Settled DVerified None (n + 2)) ?h"
    using len cur by simp
  moreover have "n + 2 = Suc (Suc n)"
    by simp
  ultimately show ?case
    using len adm st
    by (simp add: settledReview_Suc sched_snoc admissible_snoc
        del: sstep.simps sevent_ok.simps)
qed

lemma review_schedule_eq:
  "reviewHead st us @ Settled DVerified None 2 # reviewTail st us
     = settledReview st us 17 @ [Resolved st (pendingAfter us 17) 19]"
proof -
  have "map (\<lambda>k. Settled DVerified None (k + 2)) [0..<Suc 16]
          = Settled DVerified None 2 # map (\<lambda>k. Settled DVerified None (k + 3)) [0..<16]"
    unfolding map_upt_Suc by simp
  then show ?thesis
    by (simp add: reviewHead_def reviewTail_def settledReview_def)
qed

lemma watermark_load_ok:
  assumes "20 < length us" and "distinct (map user_id us)"
  shows "admissible (settledReview st us 17 @ [Resolved st (pendingAfter us 17) 19]) [initial]"
proof -
  let ?P = "map (withPhotos st) us"
  let ?h = "sched (settledReview st us 17) [initial]"
  have len: "length ?h = 20" and inr: "inReview ?P 20 17 (now ?h)"
    and adm: "admissible (settledReview st us 17) [initial]"
    using settledReview_inReview [OF assms, of 17 st] by simp_all
  have ne: "?h \<noteq> []" using len by auto
  have cur: "?h ! 19 = now ?h"
    using nth_last_history [OF ne] len by simp
  have q: "queueUsers (now ?h) = drop 17 (take 20 ?P)"
    using inr by (simp add: inReview_def)
  have l3: "length (queueUsers (now ?h)) = 3"
    using assms(1) by (simp add: q)
  have "drop 17 (take 20 ?P) = take (20 - 17) (drop 17 ?P)"
    by (rule drop_take)
  then have "map user_id (drop 17 (take 20 ?P)) = map user_id (take 3 (drop 17 ?P))"
    by (simp del: take_map drop_map)
  then have "map user_id (drop 17 (take 20 ?P)) = take 3 (map user_id (drop 17 ?P))"
    by (simp only: take_map)
  then have pre: "map user_id (queueUsers (now ?h))
      = take (length (queueUsers (now ?h)))
          (map user_id (users (fetchPendingUsers st (pendingAfter us 17))))"
    unfolding l3 by (simp add: q fetch_pendingAfter)
  have d: "distinct (map user_id (users (fetchPendingUsers st (pendingAfter us 17))))"
    using assms(2) by (simp add: fetch_pendingAfter drop_map [symmetric] comp_def distinct_drop)
  have "sevent_ok (Resolved st (pendingAfter us 17) 19) ?h"
    using len cur pre d by simp
  with adm show ?thesis
    by (simp add: admissible_snoc del: sevent_ok.simps)
qed

lemma unlisted_settled: "unlisted i (map (\<lambda>k. Settled d err (f k)) ks)"
  by (induction ks) simp_all

lemma unlisted_append: "unlisted i (es1 @ es2) = (unlisted i es1 \<and> unlisted i es2)"
  by (induction es1) simp_all

lemma reviewTail_unlisted:
  assumes "20 < length us" and "distinct (map user_id us)"
  shows "unlisted (user_id (map (withPhotos st) us ! 0)) (reviewTail st us)"
proof -
  have "user_id (us ! 0) \<notin> set (drop 17 (map user_id us))"
  proof
    assume "user_id (us ! 0) \<in> set (drop 17 (map user_id us))"
    then obtain j where j: "j < length (drop 17 (map user_id us))"
      and e: "drop 17 (map user_id us) ! j = user_id (us ! 0)"
      by (auto simp: in_set_conv_nth)
    have pos: "0 < length us" using assms(1) by auto
    from j e have "map user_id us ! (17 + j) = map user_id us ! 0"
      using nth_map [OF pos, of user_id] by simp
    moreover have "17 + j < length (map user_id us)" using j by simp
    moreover have "0 < length (map user_id us)" using assms(1) by auto
    ultimately have "17 + j = 0"
      using assms(2) nth_eq_iff_index_eq by blast
    then show False by simp
  qed
  moreover have "0 < length us"
    using assms(1) by auto
  then have "map (withPhotos st) us ! 0 = withPhotos st (us ! 0)"
    by (rule nth_map)
  ultimately show ?thesis
    by (simp add: reviewTail_def unlisted_append unlisted_settled fetch_pendingAfter drop_map)
qed

lemma reviewHead_render:
  assumes "20 < length us" and "distinct (map user_id us)"
  shows "mode (sched (reviewHead st us) [initial] ! 2) = UserVerification"
    and "currentUser (sched (reviewHead st us) [initial] ! 2) = Some (map (withPhotos st) us ! 0)"
proof -
  let ?h = "sched (settledReview st us 0) [initial]"
  have len: "length ?h = 3"
    and inr: "inReview (map (withPhotos st) us) 20 0 (now ?h)"
    using settledReview_start [OF assms, of st] by simp_all
  have ne: "?h \<noteq> []" using len by auto
  have cur: "?h ! 2 = now ?h"
    using nth_last_history [OF ne] len by simp
  have eq: "reviewHead st us = settledReview st us 0"
    by (simp add: reviewHead_def settledReview_def)
  show "mode (sched (reviewHead st us) [initial] ! 2) = UserVerification"
    and "currentUser (sched (reviewHead st us) [initial] ! 2) = Some (map (withPhotos st) us ! 0)"
    using inr unfolding eq cur by (simp_all add: inReview_def)
qed

text \<open>The race of a tick with a load in flight.\<close>

lemma race_outcome:
  assumes "length us = 45" and "distinct (map user_id us)"
  shows "queueUsers (now (sched (raceSchedule st us) [initial]))
           = take 20 (drop 17 (map (withPhotos st) us)) @ take 20 (drop 20 (map (withPhotos st) us))"
    and "allPendingUsers (now (sched (raceSchedule st us) [initial]))
           = drop 17 (map (withPhotos st) us)"
proof -
  let ?P = "map (withPhotos st) us"
  let ?h = "sched (settledReview st us 17) [initial]"
  let ?t = "tick st (pendingAfter us 17) None (now ?h)"
  have big: "20 < length us" using assms(1) by simp
  have len: "length ?h = 20" and inr: "inReview ?P 20 17 (now ?h)"
    using settledReview_inReview [OF big assms(2), of 17 st] by simp_all
  have ne: "?h \<noteq> []" using len by auto
  have cur: "(?h @ [?t]) ! 19 = now ?h"
    using nth_last_history [OF ne] len by (simp add: nth_append)
  have q: "queueUsers (now ?h) = drop 17 (take 20 ?P)"
    and v: "isUserVerifying (now ?h)" "hasMore (now ?h)"
    using inr by (simp_all add: inReview_def)
  have l3: "length (queueUsers (now ?h)) = 3"
    using assms(1) by (simp add: q)
  have tq: "queueUsers ?t = take 20 (drop 17 ?P)"
    by (simp add: tick_def loadNextBatch_def Let_def initial_def slice_def PAGE_SIZE_def
        fetch_pendingAfter)
  have batch: "slice 3 23 (drop 17 ?P) = take 20 (drop 20 ?P)"
    by (simp add: slice_def)
  have last: "sstep (Resolved st (pendingAfter us 17) 19) (?h @ [?t])
      = loadNextBatch False st (pendingAfter us 17) (now ?h) ?t"
    using len v l3 by (simp add: cur LOAD_MORE_THRESHOLD_def)
  have two: "\<And>xs a b. now (xs @ [a, b]) = b"
    by (simp add: now_def)
  have run: "now (sched (raceSchedule st us) [initial])
      = loadNextBatch False st (pendingAfter us 17) (now ?h) ?t"
    using last by (simp add: raceSchedule_def sched_append two del: sstep.simps(1))
  show "queueUsers (now (sched (raceSchedule st us) [initial]))
       = take 20 (drop 17 ?P) @ take 20 (drop 20 ?P)"
    unfolding run
    by (simp add: loadNextBatch_def Let_def fetch_pendingAfter l3 PAGE_SIZE_def batch tq)
  show "allPendingUsers (now (sched (raceSchedule st us) [initial])) = drop 17 ?P"
    unfolding run by (simp add: loadNextBatch_def Let_def fetch_pendingAfter)
qed

lemma race_breaks_queue:
  assumes "length us = 45" and "distinct (map user_id us)"
  shows "\<not> distinct (map user_id (queueUsers (now (sched (raceSchedule st us) [initial]))))"
    and "length (allPendingUsers (now (sched (raceSchedule st us) [initial]))) = 28"
    and "length (queueUsers (now (sched (raceSchedule st us) [initial]))) = 40"
proof -
  let ?P = "map (withPhotos st) us"
  have "?P ! 20 \<in> set (take 20 (drop 17 ?P))"
  proof -
    have "take 20 (drop 17 ?P) ! 3 = ?P ! 20"
      using assms(1) by simp
    moreover have "3 < length (take 20 (drop 17 ?P))"
      using assms(1) by simp
    ultimately show ?thesis
      by (metis nth_mem)
  qed
  moreover have "?P ! 20 \<in> set (take 20 (drop 20 ?P))"
  proof -
    have "take 20 (drop 20 ?P) ! 0 = ?P ! 20"
      using assms(1) by simp
    moreover have "0 < length (take 20 (drop 20 ?P))"
      using assms(1) by simp
    ultimately show ?thesis
      by (metis nth_mem)
  qed
  ultimately have "set (take 20 (drop 17 ?P)) \<inter> set (take 20 (drop 20 ?P)) \<noteq> {}"
    by blast
  then have "\<not> distinct (take 20 (drop 17 ?P) @ take 20 (drop 20 ?P))"
    by simp
  then show "\<not> distinct (map user_id (queueUsers (now (sched (raceSchedule st us) [initial]))))"
    unfolding race_outcome(1) [OF assms] using distinct_map by blast
  show "length (allPendingUsers (now (sched (raceSchedule st us) [initial]))) = 28"
    unfolding race_outcome(2) [OF assms] using assms(1) by simp
  show "length (queueUsers (now (sched (raceSchedule st us) [initial]))) = 40"
    unfolding race_outcome(1) [OF assms] using assms(1) by simp
qed

lemma watermark_load_length:
  assumes "length us = 21" and "distinct (map user_id us)"
  shows "length (queueUsers (now (sched
      (settledReview st us 17 @ [Resolved st (pendingAfter us 17) 19]) [initial]))) = 4"
proof -
  let ?P = "map (withPhotos st) us"
  let ?h = "sched (settledReview st us 17) [initial]"
  have big: "20 < length us" using assms(1) by simp
  have len: "length ?h = 20" and inr: "inReview ?P 20 17 (now ?h)"
    using settledReview_inReview [OF big assms(2), of 17 st] by simp_all
  have ne: "?h \<noteq> []" using len by auto
  have cur: "?h ! 19 = now ?h"
    using nth_last_history [OF ne] len by simp
  have q: "queueUsers (now ?h) = drop 17 (take 20 ?P)"
    and v: "isUserVerifying (now ?h)" "hasMore (now ?h)"
    using inr by (simp_all add: inReview_def)
  have l3: "length (queueUsers (now ?h)) = 3"
    using assms(1) by (simp add: q)
  have load: "sstep (Resolved st (pendingAfter us 17) 19) ?h
      = loadNextBatch False st (pendingAfter us 17) (now ?h) (now ?h)"
    using len v l3 by (simp add: cur LOAD_MORE_THRESHOLD_def)
  have "length (queueUsers (loadNextBatch False st (pendingAfter us 17) (now ?h) (now ?h))) = 4"
    using assms(1)
    by (simp add: loadNextBatch_def Let_def fetch_pendingAfter l3 PAGE_SIZE_def slice_def)
  then show ?thesis
    by (simp add: sched_snoc load del: sstep.simps(1))
qed

text \<open>
  Claim C1 as stated fails. A review of 21 pending users reaches the low watermark after
  17 approvals, and the load that follows appends by position:
  \<^item> when one new pending user has arrived in front of the list, the entry at position 3
    of the fetched list is one the queue already holds, and the queue has it twice;
  \<^item> when the fetch fails, the queue keeps its 3 entries over an empty snapshot;
  \<^item> when the writes failed and the server still lists every user, the user \<open>uuu\<close>,
    removed from the queue by the fourth decision, is in the queue again.

  And in a review of 45 pending users, a tick that lands while that load is in flight
  puts 20 entries into the queue, and the load, which still appends from position 3,
  adds 20 more: 40 entries, some of them twice, over a snapshot of 28, although both
  fetches return the same 28 users with distinct identifiers.
\<close>

theorem C1_positional_append_counterexample:
  "\<not> distinct (map user_id (queueUsers (run noTime
        (approvals noPhotos (pendingList 21) 16
           @ [ClickDecision DVerified None noPhotos
                (answer (mkUser ''new'' None # drop 17 (pendingList 21)))])
        (reviewStart noPhotos (pendingList 21)))))
   \<and> length (allPendingUsers (run noTime
        (approvals noPhotos (pendingList 21) 16 @ [ClickDecision DVerified None noPhotos failure])
        (reviewStart noPhotos (pendingList 21))))
     < length (queueUsers (run noTime
        (approvals noPhotos (pendingList 21) 16 @ [ClickDecision DVerified None noPhotos failure])
        (reviewStart noPhotos (pendingList 21))))
   \<and> ''uuu'' \<notin> set (map user_id (queueUsers (run noTime
        (failedApprovals noPhotos (pendingList 21) 16) (reviewStart noPhotos (pendingList 21)))))
   \<and> ''uuu'' \<in> set (map user_id (queueUsers (run noTime
        (failedApprovals noPhotos (pendingList 21) 17) (reviewStart noPhotos (pendingList 21)))))
   \<and> \<not> distinct (map user_id (queueUsers (now (sched
        (raceSchedule noPhotos (pendingList 45)) [initial]))))
   \<and> length (allPendingUsers (now (sched (raceSchedule noPhotos (pendingList 45)) [initial])))
     < length (queueUsers (now (sched (raceSchedule noPhotos (pendingList 45)) [initial])))"
proof -
  have atomic:
    "\<not> distinct (map user_id (queueUsers (run noTime
        (approvals noPhotos (pendingList 21) 16
           @ [ClickDecision DVerified None noPhotos
                (answer (mkUser ''new'' None # drop 17 (pendingList 21)))])
        (reviewStart noPhotos (pendingList 21)))))
     \<and> length (allPendingUsers (run noTime
        (approvals noPhotos (pendingList 21) 16 @ [ClickDecision DVerified None noPhotos failure])
        (reviewStart noPhotos (pendingList 21))))
       < length (queueUsers (run noTime
        (approvals noPhotos (pendingList 21) 16 @ [ClickDecision DVerified None noPhotos failure])
        (reviewStart noPhotos (pendingList 21))))
     \<and> ''uuu'' \<notin> set (map user_id (queueUsers (run noTime
        (failedApprovals noPhotos (pendingList 21) 16) (reviewStart noPhotos (pendingList 21)))))
     \<and> ''uuu'' \<in> set (map user_id (queueUsers (run noTime
        (failedApprovals noPhotos (pendingList 21) 17) (reviewStart noPhotos (pendingList 21)))))"
    by code_simp
  have l: "length (pendingList 45) = 45"
    by simp
  note race = race_breaks_queue [OF l pendingList_distinct, of noPhotos]
  have twice: "\<not> distinct (map user_id (queueUsers (now (sched
      (raceSchedule noPhotos (pendingList 45)) [initial]))))"
    by (rule race(1))
  have longer:
    "length (allPendingUsers (now (sched (raceSchedule noPhotos (pendingList 45)) [initial])))
       < length (queueUsers (now (sched (raceSchedule noPhotos (pendingList 45)) [initial])))"
    unfolding race(2) race(3) by simp
  from atomic twice longer show ?thesis
    by blast
qed

text \<open>
  Claim C1, amended. Take any schedule of loads, refresh ticks, clicks and decisions,
  from the first render on, in which every fetched list has pairwise distinct
  identifiers, every append resolves while the queue still has the length its closure saw
  and is given a list that begins with the current queue, identifier by identifier (as
  it is when the server has dropped the decided entries, no new entry has arrived in
  front, and nothing has changed the queue while the fetch was in flight), and every
  decision settles while the queue is still the one its click saw. Then, after every event
  of the schedule, the queue has no identifier twice, is no longer than the snapshot, and
  holds only identifiers of the latest snapshot; and an identifier removed by a decision
  is not in the queue after any later events among which no fetch lists it: it comes back
  only when a later fetch still lists it.
\<close>

theorem C1_queue_invariant:
  "(admissible es [initial] \<longrightarrow>
      distinct (map user_id (queueUsers (now (sched es [initial]))))
      \<and> length (queueUsers (now (sched es [initial])))
          \<le> length (allPendingUsers (now (sched es [initial])))
      \<and> set (map user_id (queueUsers (now (sched es [initial]))))
          \<subseteq> set (map user_id (allPendingUsers (now (sched es [initial])))))
   \<and> (admissible (es1 @ Settled d err k # es2) [initial]
      \<and> mode (sched es1 [initial] ! k) = UserVerification
      \<and> currentUser (sched es1 [initial] ! k) = Some cu
      \<and> unlisted (user_id cu) es2 \<longrightarrow>
      user_id cu
        \<notin> set (map user_id (queueUsers (now (sched (es1 @ Settled d err k # es2) [initial])))))"
proof (intro conjI impI)
  assume "admissible es [initial]"
  from sched_queueInv [OF initial_queueInv this]
  show "distinct (map user_id (queueUsers (now (sched es [initial]))))"
    and "length (queueUsers (now (sched es [initial])))
          \<le> length (allPendingUsers (now (sched es [initial])))"
    and "set (map user_id (queueUsers (now (sched es [initial]))))
          \<subseteq> set (map user_id (allPendingUsers (now (sched es [initial]))))"
    by (simp_all add: queueInv_def)
next
  let ?h1 = "sched es1 [initial]"
  let ?h2 = "?h1 @ [sstep (Settled d err k) ?h1]"
  assume a: "admissible (es1 @ Settled d err k # es2) [initial]
      \<and> mode (?h1 ! k) = UserVerification
      \<and> currentUser (?h1 ! k) = Some cu
      \<and> unlisted (user_id cu) es2"
  then have adm: "admissible (es1 @ Settled d err k # es2) [initial]"
    and m: "mode (?h1 ! k) = UserVerification"
    and cu: "currentUser (?h1 ! k) = Some cu"
    and un: "unlisted (user_id cu) es2"
    by simp_all
  from adm have k: "k < length ?h1" and a2: "admissible es2 ?h2"
    by (simp_all add: admissible_append del: sstep.simps)
  have out: "user_id cu \<notin> set (map user_id (queueUsers (now ?h2)))"
    using settled_removes [OF k m cu, of d err] by (simp del: sstep.simps set_map)
  have "sched (es1 @ Settled d err k # es2) [initial] = sched es2 ?h2"
    by (simp add: sched_append)
  with sched_unlisted [OF out a2 un]
  show "user_id cu
      \<notin> set (map user_id (queueUsers (now (sched (es1 @ Settled d err k # es2) [initial]))))"
    by simp
qed

theorem C1_queue_invariant_witness:
  "admissible
     (reviewHead noPhotos (pendingList 21) @ Settled DVerified None 2
        # reviewTail noPhotos (pendingList 21)) [initial]
   \<and> mode (sched (reviewHead noPhotos (pendingList 21)) [initial] ! 2) = UserVerification
   \<and> currentUser (sched (reviewHead noPhotos (pendingList 21)) [initial] ! 2)
       = Some (map (withPhotos noPhotos) (pendingList 21) ! 0)
   \<and> unlisted (user_id (map (withPhotos noPhotos) (pendingList 21) ! 0))
        (reviewTail noPhotos (pendingList 21))
   \<and> length (queueUsers (now (sched
        (reviewHead noPhotos (pendingList 21) @ Settled DVerified None 2
           # reviewTail noPhotos (pendingList 21)) [initial]))) = 4
   \<and> distinct (map user_id (queueUsers (now (sched
        (reviewHead noPhotos (pendingList 21) @ Settled DVerified None 2
           # reviewTail noPhotos (pendingList 21)) [initial]))))
   \<and> length (queueUsers (now (sched
        (reviewHead noPhotos (pendingList 21) @ Settled DVerified None 2
           # reviewTail noPhotos (pendingList 21)) [initial])))
     \<le> length (allPendingUsers (now (sched
        (reviewHead noPhotos (pendingList 21) @ Settled DVerified None 2
           # reviewTail noPhotos (pendingList 21)) [initial])))
   \<and> set (map user_id (queueUsers (now (sched
        (reviewHead noPhotos (pendingList 21) @ Settled DVerified None 2
           # reviewTail noPhotos (pendingList 21)) [initial]))))
     \<subseteq> set (map user_id (allPendingUsers (now (sched
        (reviewHead noPhotos (pendingList 21) @ Settled DVerified None 2
           # reviewTail noPhotos (pendingList 21)) [initial]))))
   \<and> user_id (map (withPhotos noPhotos) (pendingList 21) ! 0)
     \<notin> set (map user_id (queueUsers (now (sched
        (reviewHead noPhotos (pendingList 21) @ Settled DVerified None 2
           # reviewTail noPhotos (pendingList 21)) [initial]))))"
proof -
  let ?L = "pendingList 21"
  let ?es = "reviewHead noPhotos ?L @ Settled DVerified None 2 # reviewTail noPhotos ?L"
  let ?cu = "map (withPhotos noPhotos) ?L ! 0"
  have big: "20 < length ?L"
    by simp
  have l: "length ?L = 21"
    by simp
  note d = pendingList_distinct [of 21]
  have a: "admissible ?es [initial]"
    unfolding review_schedule_eq by (rule watermark_load_ok [OF big d])
  have m: "mode (sched (reviewHead noPhotos ?L) [initial] ! 2) = UserVerification"
    and c: "currentUser (sched (reviewHead noPhotos ?L) [initial] ! 2) = Some ?cu"
    by (rule reviewHead_render [OF big d])+
  have u: "unlisted (user_id ?cu) (reviewTail noPhotos ?L)"
    by (rule reviewTail_unlisted [OF big d])
  have n: "length (queueUsers (now (sched ?es [initial]))) = 4"
    unfolding review_schedule_eq by (rule watermark_load_length [OF l d])
  note inst = C1_queue_invariant [where es = "?es" and ?es1.0 = "reviewHead noPhotos ?L"
      and d = DVerified and err = None and k = 2 and ?es2.0 = "reviewTail noPhotos ?L"
      and cu = "?cu"]
  from inst a m c u n show ?thesis
    by blast
qed


end
